theory Spec2Isabelle
  imports Main
begin

section \<open>The stream socket\<close>

text \<open>
  \<^verbatim>\<open>network_channel.cpp\<close> talks to a blocking TCP socket through \<^verbatim>\<open>send\<close> and
  \<^verbatim>\<open>recv\<close>. The socket is modelled as explicit state: \<open>rx\<close> holds the bytes the peer has
  written and that have not been received yet (the peer closes after them, so \<^verbatim>\<open>recv\<close> on
  an empty \<open>rx\<close> returns 0), \<open>tx\<close> the bytes handed to the transport so far. What each call
  does is fixed by a schedule, one event per call: call number \<open>i\<close> of \<^verbatim>\<open>recv\<close> fails
  (returns -1) or delivers at most \<open>k\<close> bytes, and likewise for \<^verbatim>\<open>send\<close>. A schedule is a
  function on all call numbers, so a loop that never leaves is a computation that never ends.
\<close>

datatype send_event = SendFail | SendOk nat

datatype recv_event = RecvFail | RecvOk nat

record socket =
  rx :: "char list"
  tx :: "char list"
  recv_sched :: "nat \<Rightarrow> recv_event"
  send_sched :: "nat \<Rightarrow> send_event"
  rcalls :: nat
  scalls :: nat

text \<open>
  \<^verbatim>\<open>recv(sockfd, p, n, 0)\<close>: \<open>None\<close> is the return value -1; \<open>Some bs\<close> is the return value
  \<open>length bs\<close>, with \<open>bs\<close> stored at \<open>p\<close>.
\<close>

definition recv :: "socket \<Rightarrow> nat \<Rightarrow> socket \<times> char list option" where
  "recv s n =
     (case recv_sched s (rcalls s) of
        RecvFail \<Rightarrow> (s\<lparr>rcalls := Suc (rcalls s)\<rparr>, None)
      | RecvOk k \<Rightarrow>
          (s\<lparr>rx := drop (min k n) (rx s), rcalls := Suc (rcalls s)\<rparr>,
           Some (take (min k n) (rx s))))"

text \<open>
  \<^verbatim>\<open>send(sockfd, p, n, 0)\<close> with \<open>bs\<close> the \<open>n\<close> bytes at \<open>p\<close>: \<open>None\<close> is the return value -1,
  \<open>Some i\<close> the number of bytes taken.
\<close>

definition send :: "socket \<Rightarrow> char list \<Rightarrow> socket \<times> nat option" where
  "send s bs =
     (case send_sched s (scalls s) of
        SendFail \<Rightarrow> (s\<lparr>scalls := Suc (scalls s)\<rparr>, None)
      | SendOk k \<Rightarrow>
          (s\<lparr>tx := tx s @ take k bs, scalls := Suc (scalls s)\<rparr>,
           Some (min k (length bs))))"

section \<open>Failures, buffers and the length header\<close>

text \<open>
  \<open>SendFailed\<close> and \<open>RecvFailed\<close> are the early returns of the loops. \<open>OutOfBounds\<close> is a write
  past the end of one of the \<^verbatim>\<open>char[1024]\<close> stack buffers (undefined behaviour in C++, kept
  as a result of its own); \<open>StodThrew\<close> is an exception leaving \<^verbatim>\<open>std::stod\<close>.
\<close>

datatype failure = SendFailed | RecvFailed | OutOfBounds | StodThrew

definition BUFSZ :: nat where
  "BUFSZ = 1024"

definition NUL :: char where
  "NUL = CHR 0x00"

text \<open>
  \<^verbatim>\<open>memcpy(message_buf, str.c_str(), str.size())\<close> into \<^verbatim>\<open>char message_buf[1024]\<close>: the
  result is the filled prefix of the buffer.
\<close>

definition memcpy_buf :: "char list \<Rightarrow> failure + char list" where
  "memcpy_buf src = (if length src \<le> BUFSZ then Inr src else Inl OutOfBounds)"

text \<open>\<^verbatim>\<open>std::string(buf)\<close> from a \<^verbatim>\<open>char*\<close>: the bytes before the first NUL.\<close>

definition c_str :: "char list \<Rightarrow> string" where
  "c_str buf = takeWhile (\<lambda>c. c \<noteq> NUL) buf"

text \<open>
  \<^verbatim>\<open>uint32_t length = htonl(str.length()); memcpy(length_buf, &length, 4)\<close>: the length is
  cut to 32 bits and stored most significant byte first.
\<close>

definition htonl_bytes :: "nat \<Rightarrow> char list" where
  "htonl_bytes n =
     [char_of (n mod 2 ^ 32 div 2 ^ 24), char_of (n mod 2 ^ 32 div 2 ^ 16),
      char_of (n mod 2 ^ 32 div 2 ^ 8), char_of (n mod 2 ^ 32)]"

text \<open>\<^verbatim>\<open>memcpy(&v, length_buf, 4); v = ntohl(v)\<close>, called on four bytes only.\<close>

fun ntohl_bytes :: "char list \<Rightarrow> nat" where
  "ntohl_bytes [a, b, c, d] =
     of_char a * 2 ^ 24 + of_char b * 2 ^ 16 + of_char c * 2 ^ 8 + of_char d"
| "ntohl_bytes _ = 0"

text \<open>\<^verbatim>\<open>size_t sent; int i; sent += i\<close> with \<open>i = -1\<close>, on 64-bit \<^verbatim>\<open>size_t\<close>.\<close>

definition size_t_minus_one :: "nat \<Rightarrow> nat" where
  "size_t_minus_one sent = (sent + (2 ^ 64 - 1)) mod 2 ^ 64"

section \<open>The transfer loops\<close>

text \<open>
  The two send loops of \<^verbatim>\<open>send_request\<close> (header, then message):
  \<^verbatim>\<open>while (sent < N) { i = send(sockfd, buf + sent, N - sent, 0);
       if (i == -1) return Response(false, 0, "", "Send failed"); sent += i; }\<close>
  with \<open>buf\<close> the \<open>N\<close> bytes to send.
\<close>

partial_function (option) send_loop ::
  "socket \<Rightarrow> char list \<Rightarrow> nat \<Rightarrow> (socket \<times> (failure + unit)) option" where
  "send_loop s buf sent =
     (if sent < length buf then
        (case send s (drop sent buf) of
           (s', None) \<Rightarrow> Some (s', Inl SendFailed)
         | (s', Some i) \<Rightarrow> send_loop s' buf (sent + i))
      else Some (s, Inr ()))"

declare send_loop.simps [code]

text \<open>
  The two send loops of \<^verbatim>\<open>send_response\<close>: the same, but a failed send only calls
  \<^verbatim>\<open>perror\<close>, and \<^verbatim>\<open>sent += i\<close> runs with \<open>i = -1\<close>.
\<close>

partial_function (option) send_loop_resp ::
  "socket \<Rightarrow> char list \<Rightarrow> nat \<Rightarrow> socket option" where
  "send_loop_resp s buf sent =
     (if sent < length buf then
        (case send s (drop sent buf) of
           (s', None) \<Rightarrow> send_loop_resp s' buf (size_t_minus_one sent)
         | (s', Some i) \<Rightarrow> send_loop_resp s' buf (sent + i))
      else Some s)"

declare send_loop_resp.simps [code]

text \<open>
  The receive loop of \<^verbatim>\<open>send_request\<close> and \<^verbatim>\<open>receive_request\<close>:
  \<^verbatim>\<open>while (received < len) { i = recv(sockfd, buf + received, len - received, 0);
       if (i == -1) return ...; received += i; }\<close>
  into \<^verbatim>\<open>char buf[1024]\<close>. \<open>buf\<close> is the part of the buffer written so far, so
  \<open>received = length buf\<close>; the bytes of a call land at offsets \<open>received\<close> up to
  \<open>received + i - 1\<close>.
\<close>

partial_function (option) recv_loop ::
  "socket \<Rightarrow> nat \<Rightarrow> char list \<Rightarrow> (socket \<times> (failure + char list)) option" where
  "recv_loop s len buf =
     (if length buf < len then
        (case recv s (len - length buf) of
           (s', None) \<Rightarrow> Some (s', Inl RecvFailed)
         | (s', Some bs) \<Rightarrow>
             if BUFSZ < length buf + length bs then Some (s', Inl OutOfBounds)
             else recv_loop s' len (buf @ bs))
      else Some (s, Inr buf))"

declare recv_loop.simps [code]

text \<open>
  Reading one frame, lines 246-271 of \<^verbatim>\<open>send_request\<close> and lines 310-336 of
  \<^verbatim>\<open>receive_request\<close> (the same statements up to the names of the variables): one
  \<^verbatim>\<open>recv\<close> of 4 bytes for the header, refused unless it returns 4; the receive loop; the
  terminator \<^verbatim>\<open>buf[len] = '\0'\<close>; and the buffer read back as a C string.
\<close>

definition read_frame :: "socket \<Rightarrow> (socket \<times> (failure + string)) option" where
  "read_frame s =
     (case recv s 4 of
        (s1, None) \<Rightarrow> Some (s1, Inl RecvFailed)
      | (s1, Some length_buf) \<Rightarrow>
          if length length_buf \<noteq> 4 then Some (s1, Inl RecvFailed)
          else
            (case recv_loop s1 (ntohl_bytes length_buf) [] of
               None \<Rightarrow> None
             | Some (s2, Inl e) \<Rightarrow> Some (s2, Inl e)
             | Some (s2, Inr buf) \<Rightarrow>
                 if BUFSZ \<le> ntohl_bytes length_buf then Some (s2, Inl OutOfBounds)
                 else Some (s2, Inr (c_str (buf @ [NUL])))))"

section \<open>Requests, responses and their text form\<close>

text \<open>
  The text conversions of the C++ library for \<^verbatim>\<open>double\<close> are parameters of the model:
  \<open>double_out\<close> is \<^verbatim>\<open>ostream << double\<close>, \<open>stod\<close> is \<^verbatim>\<open>std::stod\<close>, with \<open>None\<close> when it
  throws. The type \<open>'d\<close> stands for \<^verbatim>\<open>double\<close>.
\<close>

record 'd platform =
  double_out :: "'d \<Rightarrow> string"
  stod :: "string \<Rightarrow> 'd option"

text \<open>\<^verbatim>\<open>ostream << int\<close>: decimal digits, with a minus sign below zero.\<close>

fun digits :: "nat \<Rightarrow> string" where
  "digits n =
     (if n < 10 then [char_of (48 + n)] else digits (n div 10) @ [char_of (48 + n mod 10)])"

declare digits.simps [simp del]

definition int_out :: "int \<Rightarrow> string" where
  "int_out i = (if i < 0 then CHR ''-'' # digits (nat (- i)) else digits (nat i))"

text \<open>
  Modelled from the spec: \<^verbatim>\<open>network_channel.h\<close>, which declares \<^verbatim>\<open>Request\<close>, \<^verbatim>\<open>Response\<close>
  and the request types, is not among the sources. The fields are those of the data model
  of the specification; the enumerators are numbered from 0 in the order the specification
  lists them, and \<^verbatim>\<open>Request(QUIT)\<close> leaves every other field zero or empty.
\<close>

datatype RequestType = DEPOSIT | WITHDRAW | BALANCE | UPLOAD | DOWNLOAD | QUIT

record 'd Request =
  req_type :: RequestType
  user_id :: int
  amount :: 'd
  filename :: string
  req_data :: string

record 'd Response =
  success :: bool
  balance :: 'd
  data :: string
  message :: string

fun type_code :: "RequestType \<Rightarrow> int" where
  "type_code DEPOSIT = 0"
| "type_code WITHDRAW = 1"
| "type_code BALANCE = 2"
| "type_code UPLOAD = 3"
| "type_code DOWNLOAD = 4"
| "type_code QUIT = 5"

definition Request_of :: "RequestType \<Rightarrow> ('d::zero) Request" where
  "Request_of t = \<lparr>req_type = t, user_id = 0, amount = 0, filename = [], req_data = []\<rparr>"

text \<open>Lines 204-211 of \<^verbatim>\<open>send_request\<close>.\<close>

definition encode_request :: "'d platform \<Rightarrow> 'd Request \<Rightarrow> string" where
  "encode_request P req =
     int_out (type_code (req_type req)) @ ''|'' @ int_out (user_id req) @ ''|'' @
     double_out P (amount req) @ ''|'' @ filename req @ ''|'' @ req_data req"

text \<open>Lines 355-361 of \<^verbatim>\<open>send_response\<close>.\<close>

definition encode_response :: "'d platform \<Rightarrow> 'd Response \<Rightarrow> string" where
  "encode_response P resp =
     (if success resp then ''1'' else ''0'') @ ''|'' @ double_out P (balance resp) @ ''|'' @
     data resp @ ''|'' @ message resp"

text \<open>\<^verbatim>\<open>str.find("|")\<close>: the position of the first delimiter, \<open>None\<close> for \<^verbatim>\<open>npos\<close>.\<close>

definition str_find :: "string \<Rightarrow> nat option" where
  "str_find str =
     (if CHR ''|'' \<in> set str then Some (length (takeWhile (\<lambda>c. c \<noteq> CHR ''|'') str))
      else None)"

text \<open>
  Lines 274-296 of \<^verbatim>\<open>send_request\<close>. \<^verbatim>\<open>bool success; double balance;\<close> are declared
  without a value: \<open>success_init\<close> and \<open>balance_init\<close> are what the stack holds there, and they reach
  the result when the branch that assigns them is not taken. \<open>substr(0, pos)\<close> is
  \<open>take pos\<close>, \<open>erase(0, pos + 1)\<close> and \<open>substr(pos + 1)\<close> are \<open>drop (pos + 1)\<close>.
\<close>

definition decode_response ::
  "'d platform \<Rightarrow> bool \<Rightarrow> 'd \<Rightarrow> string \<Rightarrow> failure + 'd Response" where
  "decode_response P success_init balance_init response_str =
     (let (success1, str1) =
            (case str_find response_str of
               Some pos \<Rightarrow> (take pos response_str = ''1'', drop (pos + 1) response_str)
             | None \<Rightarrow> (success_init, response_str))
      in case (case str_find str1 of
                 Some pos \<Rightarrow>
                   (case stod P (take pos str1) of
                      None \<Rightarrow> Inl StodThrew
                    | Some b \<Rightarrow> Inr (b, drop (pos + 1) str1))
               | None \<Rightarrow> Inr (balance_init, str1)) of
           Inl e \<Rightarrow> Inl e
         | Inr (balance1, str2) \<Rightarrow>
             (let (data1, message1) =
                    (case str_find str2 of
                       Some pos \<Rightarrow> (take pos str2, drop (pos + 1) str2)
                     | None \<Rightarrow> ([], []))
              in Inr \<lparr>success = success1, balance = balance1, data = data1,
                      message = message1\<rparr>))"

section \<open>The operations of the channel\<close>

text \<open>Lines 203-244 of \<^verbatim>\<open>send_request\<close>: header, copy into \<^verbatim>\<open>message_buf\<close>, message.\<close>

definition write_request ::
  "'d platform \<Rightarrow> socket \<Rightarrow> 'd Request \<Rightarrow> (socket \<times> (failure + unit)) option" where
  "write_request P s req =
     (let request_str = encode_request P req;
          length_buf = htonl_bytes (length request_str)
      in case send_loop s length_buf 0 of
           None \<Rightarrow> None
         | Some (s1, Inl e) \<Rightarrow> Some (s1, Inl e)
         | Some (s1, Inr u) \<Rightarrow>
             (case memcpy_buf request_str of
                Inl e \<Rightarrow> Some (s1, Inl e)
              | Inr message_buf \<Rightarrow> send_loop s1 message_buf 0))"

text \<open>Lines 246-296 of \<^verbatim>\<open>send_request\<close>: the response frame, then its decoding.\<close>

definition read_response ::
  "'d platform \<Rightarrow> bool \<Rightarrow> 'd \<Rightarrow> socket \<Rightarrow> (socket \<times> (failure + 'd Response)) option" where
  "read_response P success_init balance_init s =
     (case read_frame s of
        None \<Rightarrow> None
      | Some (s', Inl e) \<Rightarrow> Some (s', Inl e)
      | Some (s', Inr response_str) \<Rightarrow>
          Some (s', decode_response P success_init balance_init response_str))"

text \<open>
  \<^verbatim>\<open>send_request\<close>: a failed send returns \<^verbatim>\<open>Response(false, 0, "", "Send failed")\<close>, a
  failed receive \<^verbatim>\<open>Response(false, 0, "", "Receive failed")\<close>.
\<close>

definition send_request ::
  "('d::zero) platform \<Rightarrow> bool \<Rightarrow> 'd \<Rightarrow> socket \<Rightarrow> 'd Request \<Rightarrow>
     (socket \<times> (failure + 'd Response)) option" where
  "send_request P success_init balance_init s req =
     (case write_request P s req of
        None \<Rightarrow> None
      | Some (s1, Inl SendFailed) \<Rightarrow>
          Some (s1, Inr \<lparr>success = False, balance = 0, data = [], message = ''Send failed''\<rparr>)
      | Some (s1, Inl e) \<Rightarrow> Some (s1, Inl e)
      | Some (s1, Inr u) \<Rightarrow>
          (case read_response P success_init balance_init s1 of
             None \<Rightarrow> None
           | Some (s2, Inl RecvFailed) \<Rightarrow>
               Some (s2, Inr \<lparr>success = False, balance = 0, data = [],
                               message = ''Receive failed''\<rparr>)
           | Some (s2, r) \<Rightarrow> Some (s2, r)))"

text \<open>
  \<^verbatim>\<open>receive_request\<close>: a failed receive returns \<^verbatim>\<open>Request(QUIT)\<close>; otherwise the buffer goes
  to \<^verbatim>\<open>Request::parseRequest\<close>, which is declared outside the sources and is a parameter.
\<close>

definition receive_request ::
  "(string \<Rightarrow> failure + ('d::zero) Request) \<Rightarrow> socket \<Rightarrow>
     (socket \<times> (failure + 'd Request)) option" where
  "receive_request parseRequest s =
     (case read_frame s of
        None \<Rightarrow> None
      | Some (s', Inl RecvFailed) \<Rightarrow> Some (s', Inr (Request_of QUIT))
      | Some (s', Inl e) \<Rightarrow> Some (s', Inl e)
      | Some (s', Inr req_buf) \<Rightarrow> Some (s', parseRequest req_buf))"

text \<open>\<^verbatim>\<open>send_response\<close>: returns \<^verbatim>\<open>void\<close>; the result is the socket afterwards.\<close>

definition send_response ::
  "'d platform \<Rightarrow> socket \<Rightarrow> 'd Response \<Rightarrow> (socket \<times> (failure + unit)) option" where
  "send_response P s resp =
     (let response_str = encode_response P resp;
          length_buf = htonl_bytes (length response_str)
      in case send_loop_resp s length_buf 0 of
           None \<Rightarrow> None
         | Some s1 \<Rightarrow>
             (case memcpy_buf response_str of
                Inl e \<Rightarrow> Some (s1, Inl e)
              | Inr message_buf \<Rightarrow>
                  (case send_loop_resp s1 message_buf 0 of
                     None \<Rightarrow> None
                   | Some s2 \<Rightarrow> Some (s2, Inr ()))))"

section \<open>Opening a channel\<close>

text \<open>
  The constructor \<^verbatim>\<open>NetworkRequestChannel(ip, port, side)\<close>. The system calls are an
  environment: what \<^verbatim>\<open>socket\<close>, \<^verbatim>\<open>setsockopt\<close> and \<^verbatim>\<open>listen\<close> return, what \<^verbatim>\<open>bind\<close> and
  \<^verbatim>\<open>connect\<close> return for an address and a port, and \<^verbatim>\<open>inet_pton(AF_INET, ...)\<close>, which
  gives the address when it returns 1 and \<open>None\<close> when it returns 0 or -1. A \<^verbatim>\<open>throw\<close> of the
  constructor is \<open>Inl\<close> of the thrown text: no channel object exists then.
\<close>

record os_env =
  socket_ret :: int
  setsockopt_ret :: int
  inet_pton :: "string \<Rightarrow> nat option"
  bind_ret :: "nat \<Rightarrow> nat \<Rightarrow> int"
  listen_ret :: int
  connect_ret :: "nat \<Rightarrow> nat \<Rightarrow> int"

datatype Side = SERVER_SIDE | CLIENT_SIDE

datatype setup_error = ConnectionSetupError string

record channel =
  my_side :: Side
  sockfd :: int
  sin_addr :: nat
  sin_port :: nat
  peer_ip :: string
  peer_port :: int

definition INADDR_ANY :: nat where
  "INADDR_ANY = 0"

text \<open>\<^verbatim>\<open>htons(port)\<close>: the port cut to 16 bits.\<close>

definition htons :: "int \<Rightarrow> nat" where
  "htons port = nat (port mod 65536)"

definition NetworkRequestChannel ::
  "os_env \<Rightarrow> string \<Rightarrow> int \<Rightarrow> Side \<Rightarrow> setup_error + channel" where
  "NetworkRequestChannel env ip port side =
     (if side = SERVER_SIDE then
        if socket_ret env = - 1 then
          Inl (ConnectionSetupError ''Error creating socket server side'')
        else if setsockopt_ret env = - 1 then
          Inl (ConnectionSetupError ''Error allowing address reuse server side'')
        else
          (case (if ip = [] then Some INADDR_ANY else inet_pton env ip) of
             None \<Rightarrow> Inl (ConnectionSetupError ''Error setting address server side'')
           | Some addr \<Rightarrow>
               if bind_ret env addr (htons port) = - 1 then
                 Inl (ConnectionSetupError ''Error binding'')
               else if listen_ret env = - 1 then
                 Inl (ConnectionSetupError ''Error listening'')
               else
                 Inr \<lparr>my_side = side, sockfd = socket_ret env, sin_addr = addr,
                      sin_port = htons port, peer_ip = ''0.0.0.0'', peer_port = port\<rparr>)
      else
        if socket_ret env = - 1 then
          Inl (ConnectionSetupError ''Error creating socket client side'')
        else
          (case (if ip = ''localhost'' then inet_pton env ''127.0.0.1''
                 else inet_pton env ip) of
             None \<Rightarrow> Inl (ConnectionSetupError ''Error setting address client side'')
           | Some addr \<Rightarrow>
               if connect_ret env addr (htons port) = - 1 then
                 Inl (ConnectionSetupError ''Error connecting'')
               else
                 Inr \<lparr>my_side = side, sockfd = socket_ret env, sin_addr = addr,
                      sin_port = htons port, peer_ip = ip, peer_port = port\<rparr>))"

section \<open>Schedules\<close>

text \<open>
  Properties of a schedule from the call the socket is at: every send takes at least one
  byte; no send returns 0; every receive delivers at least one byte (when the peer has one
  left); a send, or a receive, between two states of a socket failed.
\<close>

definition sends_progress :: "socket \<Rightarrow> bool" where
  "sends_progress s \<longleftrightarrow> (\<forall>i\<ge>scalls s. \<exists>k>0. send_sched s i = SendOk k)"

definition sends_no_stall :: "socket \<Rightarrow> bool" where
  "sends_no_stall s \<longleftrightarrow> (\<forall>i\<ge>scalls s. send_sched s i \<noteq> SendOk 0)"

definition recvs_progress :: "socket \<Rightarrow> bool" where
  "recvs_progress s \<longleftrightarrow> (\<forall>i\<ge>rcalls s. \<exists>k>0. recv_sched s i = RecvOk k)"

definition send_failed_between :: "socket \<Rightarrow> socket \<Rightarrow> bool" where
  "send_failed_between s s' \<longleftrightarrow>
     (\<exists>i. scalls s \<le> i \<and> i < scalls s' \<and> send_sched s i = SendFail)"

definition recv_failed_between :: "socket \<Rightarrow> socket \<Rightarrow> bool" where
  "recv_failed_between s s' \<longleftrightarrow>
     (\<exists>i. rcalls s \<le> i \<and> i < rcalls s' \<and> recv_sched s i = RecvFail)"

text \<open>The next \<^verbatim>\<open>recv\<close> of 4 bytes returns 4: the header arrives whole.\<close>

definition header_arrives :: "socket \<Rightarrow> bool" where
  "header_arrives s \<longleftrightarrow>
     (case recv_sched s (rcalls s) of
        RecvFail \<Rightarrow> False
      | RecvOk k \<Rightarrow> 4 \<le> k \<and> 4 \<le> length (rx s))"

text \<open>
  What the send loops, and the receive loops, can change in a socket: the bytes sent and the
  number of sends; the bytes left to receive and the number of receives.
\<close>

definition send_trace :: "socket \<Rightarrow> socket \<Rightarrow> bool" where
  "send_trace s s' \<longleftrightarrow> (\<exists>t n. s' = s\<lparr>tx := t, scalls := scalls s + n\<rparr>)"

definition recv_trace :: "socket \<Rightarrow> socket \<Rightarrow> bool" where
  "recv_trace s s' \<longleftrightarrow> (\<exists>x n. s' = s\<lparr>rx := x, rcalls := rcalls s + n\<rparr>)"

section \<open>Example inputs\<close>

text \<open>
  A socket nothing has been done with: the bytes the peer sends, and the two schedules.
\<close>

definition fresh_socket ::
  "char list \<Rightarrow> (nat \<Rightarrow> recv_event) \<Rightarrow> (nat \<Rightarrow> send_event) \<Rightarrow> socket" where
  "fresh_socket bytes rs ss =
     \<lparr>rx = bytes, tx = [], recv_sched = rs, send_sched = ss, rcalls = 0, scalls = 0\<rparr>"

text \<open>
  A platform for the examples, with whole numbers for amounts: they are written in decimal,
  and \<open>stod\<close> reads a decimal whole number back and throws on any other text (on the empty
  text in particular, as \<^verbatim>\<open>std::stod\<close> does).
\<close>

definition is_digit :: "char \<Rightarrow> bool" where
  "is_digit c \<longleftrightarrow> (48::nat) \<le> of_char c \<and> of_char c \<le> (57::nat)"

definition whole_stod :: "string \<Rightarrow> int option" where
  "whole_stod str =
     (let (neg, ds) = (case str of c # r \<Rightarrow> if c = CHR ''-'' then (True, r) else (False, str)
                       | [] \<Rightarrow> (False, str))
      in if ds = [] \<or> \<not> list_all is_digit ds then None
         else Some ((if neg then - 1 else 1) *
                    int (foldl (\<lambda>a c. 10 * a + (of_char c - 48)) 0 ds)))"

definition whole_platform :: "int platform" where
  "whole_platform = \<lparr>double_out = int_out, stod = whole_stod\<rparr>"


section \<open>Decoding a request\<close>

text \<open>
  Modelled from the spec: \<^verbatim>\<open>Request::parseRequest\<close>, which \<^verbatim>\<open>receive_request\<close> calls on the
  buffer, is declared in \<^verbatim>\<open>network_channel.h\<close> and defined outside the sources. The
  specification has the decoding split the text at the delimiter from the left, one field
  per split, with the last field (\<open>data\<close>) taking all the remaining text; read each
  numeric field with the inverse of the conversion that wrote it (a decimal integer for
  the type and the user id, \<^verbatim>\<open>std::stod\<close> for the amount); and leave the trailing fields of
  a text with fewer delimiters missing or default: here a field is read when a delimiter
  ends it, as in the decoding of a response, and the other fields are those of \<open>dflt\<close>. A
  numeric field that cannot be read is a failure.
\<close>





section \<open>The length header\<close>

lemma length_htonl_bytes: "length (htonl_bytes n) = 4"
  by (simp add: htonl_bytes_def)

lemma be32_sum:
  fixes m :: nat
  assumes "m < 4294967296"
  shows "m div 16777216 * 16777216 + m div 65536 mod 256 * 65536 +
    m div 256 mod 256 * 256 + m mod 256 = m"
proof -
  define a where "a = m div 256"
  define b where "b = a div 256"
  define c where "c = b div 256"
  have m: "m = a * 256 + m mod 256"
    by (simp add: a_def)
  have a: "a = b * 256 + a mod 256"
    by (simp add: b_def)
  have b: "b = c * 256 + b mod 256"
    by (simp add: c_def)
  have b_eq: "m div 65536 = b"
    by (simp add: a_def b_def div_mult2_eq [symmetric])
  have c_eq: "m div 16777216 = c"
    by (simp add: a_def b_def c_def div_mult2_eq [symmetric])
  have "c * 16777216 + b mod 256 * 65536 + a mod 256 * 256 + m mod 256 = m"
    using m a b by linarith
  then show ?thesis
    by (simp add: b_eq c_eq a_def [symmetric])
qed

lemma ntohl_htonl: "ntohl_bytes (htonl_bytes n) = n mod 2 ^ 32"
proof -
  define m where "m = n mod 4294967296"
  have less: "m < 4294967296"
    by (simp add: m_def)
  then have "m div 16777216 < 256"
    by simp
  then have top: "m div 16777216 mod 256 = m div 16777216"
    by simp
  have "ntohl_bytes (htonl_bytes n) =
      m div 16777216 mod 256 * 16777216 + m div 65536 mod 256 * 65536 +
      m div 256 mod 256 * 256 + m mod 256"
    by (simp add: htonl_bytes_def m_def [symmetric])
  also have "\<dots> = m"
    using be32_sum [OF less] by (simp only: top)
  finally have "ntohl_bytes (htonl_bytes n) = m" .
  then show ?thesis by (simp add: m_def)
qed

section \<open>The send loops\<close>

lemma send_progress_step:
  assumes "sends_progress s"
  shows "\<exists>k>0. send s bs = (s\<lparr>tx := tx s @ take k bs, scalls := Suc (scalls s)\<rparr>, Some (min k (length bs)))"
proof -
  from assms obtain k where "k > 0" "send_sched s (scalls s) = SendOk k"
    unfolding sends_progress_def by blast
  then show ?thesis
    by (auto simp: send_def)
qed

lemma sends_progress_update [simp]:
  "sends_progress (s\<lparr>tx := t, scalls := scalls s + n\<rparr>) = sends_progress (s\<lparr>scalls := scalls s + n\<rparr>)"
  by (simp add: sends_progress_def)

lemma sends_progress_later:
  "sends_progress s \<Longrightarrow> sends_progress (s\<lparr>tx := t, scalls := scalls s + n\<rparr>)"
  by (simp add: sends_progress_def)

lemma take_drop_chunk:
  "take k (drop sent buf) @ drop (sent + min k (length buf - sent)) buf = drop sent buf"
proof -
  have "drop (sent + min k (length buf - sent)) buf = drop (min k (length (drop sent buf))) (drop sent buf)"
    by (simp add: add.commute)
  also have "\<dots> = drop k (drop sent buf)"
    by (simp add: min_def)
  finally show ?thesis
    by (simp del: drop_drop)
qed

lemma send_loop_resp_ok:
  assumes "sends_progress s"
  shows "\<exists>n. send_loop_resp s buf sent = Some (s\<lparr>tx := tx s @ drop sent buf, scalls := scalls s + n\<rparr>)"
  using assms
proof (induction "length buf - sent" arbitrary: s sent rule: less_induct)
  case less
  show ?case
  proof (cases "sent < length buf")
    case False
    then have "send_loop_resp s buf sent = Some s"
      by (subst send_loop_resp.simps) simp
    with False show ?thesis
      by (intro exI [of _ 0]) simp
  next
    case True
    from send_progress_step [OF less.prems, of "drop sent buf"] obtain k where k: "k > 0"
      and snd: "send s (drop sent buf) =
        (s\<lparr>tx := tx s @ take k (drop sent buf), scalls := Suc (scalls s)\<rparr>,
         Some (min k (length (drop sent buf))))"
      by blast
    let ?s1 = "s\<lparr>tx := tx s @ take k (drop sent buf), scalls := Suc (scalls s)\<rparr>"
    let ?i = "min k (length buf - sent)"
    have prog: "sends_progress ?s1"
      using sends_progress_later [OF less.prems, where n = 1] by simp
    have "length buf - (sent + ?i) < length buf - sent"
      using True k by simp
    from less.hyps [OF this prog] obtain n where
      n: "send_loop_resp ?s1 buf (sent + ?i) =
            Some (?s1\<lparr>tx := tx ?s1 @ drop (sent + ?i) buf, scalls := scalls ?s1 + n\<rparr>)"
      by blast
    have "send_loop_resp s buf sent = send_loop_resp ?s1 buf (sent + ?i)"
      using True snd by (subst send_loop_resp.simps) simp
    also note n
    finally show ?thesis
      by (intro exI [of _ "Suc n"]) (simp add: take_drop_chunk)
  qed
qed

lemma send_loop_ok:
  assumes "sends_progress s"
  shows "\<exists>n. send_loop s buf sent =
           Some (s\<lparr>tx := tx s @ drop sent buf, scalls := scalls s + n\<rparr>, Inr ())"
  using assms
proof (induction "length buf - sent" arbitrary: s sent rule: less_induct)
  case less
  show ?case
  proof (cases "sent < length buf")
    case False
    then have "send_loop s buf sent = Some (s, Inr ())"
      by (subst send_loop.simps) simp
    with False show ?thesis
      by (intro exI [of _ 0]) simp
  next
    case True
    from send_progress_step [OF less.prems, of "drop sent buf"] obtain k where k: "k > 0"
      and snd: "send s (drop sent buf) =
        (s\<lparr>tx := tx s @ take k (drop sent buf), scalls := Suc (scalls s)\<rparr>,
         Some (min k (length (drop sent buf))))"
      by blast
    let ?s1 = "s\<lparr>tx := tx s @ take k (drop sent buf), scalls := Suc (scalls s)\<rparr>"
    let ?i = "min k (length buf - sent)"
    have prog: "sends_progress ?s1"
      using sends_progress_later [OF less.prems, where n = 1] by simp
    have "length buf - (sent + ?i) < length buf - sent"
      using True k by simp
    from less.hyps [OF this prog] obtain n where
      n: "send_loop ?s1 buf (sent + ?i) =
            Some (?s1\<lparr>tx := tx ?s1 @ drop (sent + ?i) buf, scalls := scalls ?s1 + n\<rparr>, Inr ())"
      by blast
    have "send_loop s buf sent = send_loop ?s1 buf (sent + ?i)"
      using True snd by (subst send_loop.simps) simp
    also note n
    finally show ?thesis
      by (intro exI [of _ "Suc n"]) (simp add: take_drop_chunk)
  qed
qed

lemma send_trace_refl: "send_trace s s"
  unfolding send_trace_def by (intro exI [of _ "tx s"] exI [of _ 0]) simp

lemma send_trace_trans: "send_trace s s1 \<Longrightarrow> send_trace s1 s2 \<Longrightarrow> send_trace s s2"
  unfolding send_trace_def
proof (elim exE)
  fix t n t' n'
  assume "s1 = s\<lparr>tx := t, scalls := scalls s + n\<rparr>" "s2 = s1\<lparr>tx := t', scalls := scalls s1 + n'\<rparr>"
  then have "s2 = s\<lparr>tx := t', scalls := scalls s + (n + n')\<rparr>"
    by simp
  then show "\<exists>t n. s2 = s\<lparr>tx := t, scalls := scalls s + n\<rparr>"
    by blast
qed

lemma send_trace_fields:
  "send_trace s s' \<Longrightarrow>
     rx s' = rx s \<and> rcalls s' = rcalls s \<and> recv_sched s' = recv_sched s \<and>
     send_sched s' = send_sched s \<and> scalls s \<le> scalls s'"
  unfolding send_trace_def by auto

lemma send_loop_sound_aux:
  assumes "send_loop s buf sent = Some y"
  shows "send_trace s (fst y) \<and>
      (case snd y of
         Inr u \<Rightarrow> \<not> send_failed_between s (fst y)
       | Inl e \<Rightarrow> e = SendFailed \<and> send_failed_between s (fst y))"
proof (rule send_loop.raw_induct
    [OF _ assms, where P = "\<lambda>s buf sent y. send_trace s (fst y) \<and>
      (case snd y of
         Inr u \<Rightarrow> \<not> send_failed_between s (fst y)
       | Inl e \<Rightarrow> e = SendFailed \<and> send_failed_between s (fst y))"])
  fix f s buf sent y
  assume ih: "\<And>s buf sent y. f s buf sent = Some y \<Longrightarrow>
      send_trace s (fst y) \<and>
      (case snd y of
         Inr u \<Rightarrow> \<not> send_failed_between s (fst y)
       | Inl e \<Rightarrow> e = SendFailed \<and> send_failed_between s (fst y))"
    and body: "(if sent < length buf then
        (case send s (drop sent buf) of
           (s', None) \<Rightarrow> Some (s', Inl SendFailed)
         | (s', Some i) \<Rightarrow> f s' buf (sent + i))
      else Some (s, Inr ())) = Some y"
  show "send_trace s (fst y) \<and>
      (case snd y of
         Inr u \<Rightarrow> \<not> send_failed_between s (fst y)
       | Inl e \<Rightarrow> e = SendFailed \<and> send_failed_between s (fst y))"
  proof (cases "sent < length buf")
    case False
    with body have "y = (s, Inr ())"
      by simp
    then show ?thesis
      by (auto simp: send_trace_refl send_failed_between_def)
  next
    case True
    show ?thesis
    proof (cases "send_sched s (scalls s)")
      case SendFail
      with True body have "y = (s\<lparr>scalls := Suc (scalls s)\<rparr>, Inl SendFailed)"
        by (simp add: send_def)
      moreover have "send_trace s (s\<lparr>scalls := Suc (scalls s)\<rparr>)"
        unfolding send_trace_def by (intro exI [of _ "tx s"] exI [of _ 1]) simp
      moreover have "send_failed_between s (s\<lparr>scalls := Suc (scalls s)\<rparr>)"
        unfolding send_failed_between_def using SendFail
        by (intro exI [of _ "scalls s"]) simp
      ultimately show ?thesis
        by simp
    next
      case (SendOk k)
      let ?s1 = "s\<lparr>tx := tx s @ take k (drop sent buf), scalls := Suc (scalls s)\<rparr>"
      from SendOk True body
      have rec: "f ?s1 buf (sent + min k (length buf - sent)) = Some y"
        by (simp add: send_def)
      note step = ih [OF rec]
      have tr: "send_trace s ?s1"
        unfolding send_trace_def
        by (intro exI [of _ "tx s @ take k (drop sent buf)"] exI [of _ 1]) simp
      from step have tr2: "send_trace ?s1 (fst y)"
        by simp
      from send_trace_fields [OF tr2] have le: "Suc (scalls s) \<le> scalls (fst y)"
        by simp
      have iff: "send_failed_between s (fst y) \<longleftrightarrow> send_failed_between ?s1 (fst y)"
      proof
        assume "send_failed_between s (fst y)"
        then obtain i where i: "scalls s \<le> i" "i < scalls (fst y)" "send_sched s i = SendFail"
          unfolding send_failed_between_def by blast
        with SendOk have "i \<noteq> scalls s"
          by auto
        with i have "Suc (scalls s) \<le> i"
          by simp
        with i show "send_failed_between ?s1 (fst y)"
          unfolding send_failed_between_def by auto
      next
        assume "send_failed_between ?s1 (fst y)"
        then obtain i where "Suc (scalls s) \<le> i" "i < scalls (fst y)" "send_sched s i = SendFail"
          unfolding send_failed_between_def by auto
        then show "send_failed_between s (fst y)"
          unfolding send_failed_between_def by (intro exI [of _ i]) simp
      qed
      from step show ?thesis
        using send_trace_trans [OF tr tr2] by (cases "snd y") (simp_all add: iff)
    qed
  qed
qed

lemma send_loop_sound:
  assumes "send_loop s buf sent = Some (s', r)"
  shows "send_trace s s' \<and>
     (case r of
        Inr u \<Rightarrow> \<not> send_failed_between s s'
      | Inl e \<Rightarrow> e = SendFailed \<and> send_failed_between s s')"
  using send_loop_sound_aux [OF assms] by (cases r) simp_all

lemma sends_no_stall_later:
  "sends_no_stall s \<Longrightarrow> send_trace s s' \<Longrightarrow> sends_no_stall s'"
  unfolding sends_no_stall_def send_trace_def by auto

lemma send_loop_total:
  assumes "sends_no_stall s"
  shows "\<exists>y. send_loop s buf sent = Some y"
  using assms
proof (induction "length buf - sent" arbitrary: s sent rule: less_induct)
  case less
  show ?case
  proof (cases "sent < length buf")
    case False
    then show ?thesis
      by (subst send_loop.simps) simp
  next
    case True
    show ?thesis
    proof (cases "send_sched s (scalls s)")
      case SendFail
      with True show ?thesis
        by (subst send_loop.simps) (simp add: send_def)
    next
      case (SendOk k)
      with less.prems have k: "k > 0"
        unfolding sends_no_stall_def by (cases k) auto
      let ?s1 = "s\<lparr>tx := tx s @ take k (drop sent buf), scalls := Suc (scalls s)\<rparr>"
      let ?i = "min k (length buf - sent)"
      have "send_trace s ?s1"
        unfolding send_trace_def
        by (intro exI [of _ "tx s @ take k (drop sent buf)"] exI [of _ 1]) simp
      then have stall: "sends_no_stall ?s1"
        using less.prems sends_no_stall_later by blast
      have "length buf - (sent + ?i) < length buf - sent"
        using True k by simp
      from less.hyps [OF this stall] obtain y where "send_loop ?s1 buf (sent + ?i) = Some y"
        by blast
      moreover have "send_loop s buf sent = send_loop ?s1 buf (sent + ?i)"
        using True SendOk by (subst send_loop.simps) (simp add: send_def)
      ultimately show ?thesis
        by simp
    qed
  qed
qed

section \<open>The receive loop\<close>

lemma recv_trace_refl: "recv_trace s s"
  unfolding recv_trace_def by (intro exI [of _ "rx s"] exI [of _ 0]) simp

lemma recv_trace_trans: "recv_trace s s1 \<Longrightarrow> recv_trace s1 s2 \<Longrightarrow> recv_trace s s2"
  unfolding recv_trace_def
proof (elim exE)
  fix x n x' n'
  assume "s1 = s\<lparr>rx := x, rcalls := rcalls s + n\<rparr>" "s2 = s1\<lparr>rx := x', rcalls := rcalls s1 + n'\<rparr>"
  then have "s2 = s\<lparr>rx := x', rcalls := rcalls s + (n + n')\<rparr>"
    by simp
  then show "\<exists>x n. s2 = s\<lparr>rx := x, rcalls := rcalls s + n\<rparr>"
    by blast
qed

lemma recv_trace_fields:
  "recv_trace s s' \<Longrightarrow>
     tx s' = tx s \<and> scalls s' = scalls s \<and> send_sched s' = send_sched s \<and>
     recv_sched s' = recv_sched s \<and> rcalls s \<le> rcalls s'"
  unfolding recv_trace_def by auto

lemma recv_trace_recv: "recv_trace s (fst (recv s n))"
proof (cases "recv_sched s (rcalls s)")
  case RecvFail
  then show ?thesis
    unfolding recv_trace_def recv_def by (intro exI [of _ "rx s"] exI [of _ 1]) simp
next
  case (RecvOk k)
  then show ?thesis
    unfolding recv_trace_def recv_def
    by (intro exI [of _ "drop (min k n) (rx s)"] exI [of _ 1]) simp
qed

lemma rcalls_recv: "rcalls (fst (recv s n)) = Suc (rcalls s)"
  by (cases "recv_sched s (rcalls s)") (simp_all add: recv_def)

lemma recv_failed_between_step:
  assumes "recv_sched s (rcalls s) \<noteq> RecvFail" "recv_trace s1 s'" "recv_trace s s1"
    "rcalls s1 = Suc (rcalls s)"
  shows "recv_failed_between s s' \<longleftrightarrow> recv_failed_between s1 s'"
proof
  assume "recv_failed_between s s'"
  then obtain i where i: "rcalls s \<le> i" "i < rcalls s'" "recv_sched s i = RecvFail"
    unfolding recv_failed_between_def by blast
  with assms(1) have "i \<noteq> rcalls s"
    by auto
  with i have "Suc (rcalls s) \<le> i"
    by simp
  with i assms(4) recv_trace_fields [OF assms(3)] show "recv_failed_between s1 s'"
    unfolding recv_failed_between_def by auto
next
  assume "recv_failed_between s1 s'"
  then obtain i where "Suc (rcalls s) \<le> i" "i < rcalls s'" "recv_sched s i = RecvFail"
    unfolding recv_failed_between_def using assms(4) recv_trace_fields [OF assms(3)] by auto
  then show "recv_failed_between s s'"
    unfolding recv_failed_between_def by (intro exI [of _ i]) simp
qed

lemma recv_loop_sound_aux:
  assumes "recv_loop s len buf = Some y"
  shows "recv_trace s (fst y) \<and>
      (case snd y of
         Inr b \<Rightarrow> \<not> recv_failed_between s (fst y)
       | Inl e \<Rightarrow> (e = RecvFailed \<and> recv_failed_between s (fst y)) \<or>
                  (e = OutOfBounds \<and> \<not> recv_failed_between s (fst y)))"
proof (rule recv_loop.raw_induct
    [OF _ assms, where P = "\<lambda>s len buf y. recv_trace s (fst y) \<and>
      (case snd y of
         Inr b \<Rightarrow> \<not> recv_failed_between s (fst y)
       | Inl e \<Rightarrow> (e = RecvFailed \<and> recv_failed_between s (fst y)) \<or>
                  (e = OutOfBounds \<and> \<not> recv_failed_between s (fst y)))"])
  fix f s len buf y
  assume ih: "\<And>s len buf y. f s len buf = Some y \<Longrightarrow>
      recv_trace s (fst y) \<and>
      (case snd y of
         Inr b \<Rightarrow> \<not> recv_failed_between s (fst y)
       | Inl e \<Rightarrow> (e = RecvFailed \<and> recv_failed_between s (fst y)) \<or>
                  (e = OutOfBounds \<and> \<not> recv_failed_between s (fst y)))"
    and body: "(if length buf < len then
        (case recv s (len - length buf) of
           (s', None) \<Rightarrow> Some (s', Inl RecvFailed)
         | (s', Some bs) \<Rightarrow>
             if BUFSZ < length buf + length bs then Some (s', Inl OutOfBounds)
             else f s' len (buf @ bs))
      else Some (s, Inr buf)) = Some y"
  show "recv_trace s (fst y) \<and>
      (case snd y of
         Inr b \<Rightarrow> \<not> recv_failed_between s (fst y)
       | Inl e \<Rightarrow> (e = RecvFailed \<and> recv_failed_between s (fst y)) \<or>
                  (e = OutOfBounds \<and> \<not> recv_failed_between s (fst y)))"
  proof (cases "length buf < len")
    case False
    with body have "y = (s, Inr buf)"
      by simp
    then show ?thesis
      by (auto simp: recv_trace_refl recv_failed_between_def)
  next
    case True
    let ?s1 = "fst (recv s (len - length buf))"
    have tr: "recv_trace s ?s1"
      by (rule recv_trace_recv)
    have calls: "rcalls ?s1 = Suc (rcalls s)"
      by (rule rcalls_recv)
    show ?thesis
    proof (cases "recv_sched s (rcalls s)")
      case RecvFail
      with True body have y: "y = (?s1, Inl RecvFailed)"
        by (simp add: recv_def)
      have "recv_failed_between s ?s1"
        unfolding recv_failed_between_def using RecvFail calls
        by (intro exI [of _ "rcalls s"]) simp
      with y tr show ?thesis
        by simp
    next
      case (RecvOk k)
      let ?bs = "take (min k (len - length buf)) (rx s)"
      from RecvOk True body
      have rec: "(if BUFSZ < length buf + length ?bs then Some (?s1, Inl OutOfBounds)
                  else f ?s1 len (buf @ ?bs)) = Some y"
        by (simp add: recv_def split: if_splits)
      have nofail: "recv_sched s (rcalls s) \<noteq> RecvFail"
        using RecvOk by simp
      show ?thesis
      proof (cases "BUFSZ < length buf + length ?bs")
        case True
        with rec have y: "y = (?s1, Inl OutOfBounds)"
          by simp
        have "\<not> recv_failed_between s ?s1"
          unfolding recv_failed_between_def using nofail calls by (auto simp: less_Suc_eq_le)
        with y tr show ?thesis
          by simp
      next
        case False
        with rec have "f ?s1 len (buf @ ?bs) = Some y"
          by simp
        note step = ih [OF this]
        then have tr2: "recv_trace ?s1 (fst y)"
          by simp
        note iff = recv_failed_between_step [OF nofail tr2 tr calls]
        from step show ?thesis
          using recv_trace_trans [OF tr tr2] by (cases "snd y") (simp_all add: iff)
      qed
    qed
  qed
qed

lemma recv_loop_sound:
  assumes "recv_loop s len buf = Some (s', r)"
  shows "recv_trace s s' \<and>
     (case r of
        Inr b \<Rightarrow> \<not> recv_failed_between s s'
      | Inl e \<Rightarrow> (e = RecvFailed \<and> recv_failed_between s s') \<or>
                 (e = OutOfBounds \<and> \<not> recv_failed_between s s'))"
  using recv_loop_sound_aux [OF assms] by (cases r) simp_all

lemma recvs_progress_trace:
  "recvs_progress s \<Longrightarrow> recv_trace s s' \<Longrightarrow> recvs_progress s'"
  unfolding recvs_progress_def recv_trace_def by auto

lemma recv_progress_step:
  assumes "recvs_progress s"
  shows "\<exists>k>0. recv s n =
     (s\<lparr>rx := drop (min k n) (rx s), rcalls := Suc (rcalls s)\<rparr>, Some (take (min k n) (rx s)))"
proof -
  from assms obtain k where "k > 0" "recv_sched s (rcalls s) = RecvOk k"
    unfolding recvs_progress_def by blast
  then show ?thesis
    by (auto simp: recv_def)
qed

lemma recv_loop_ok:
  assumes "recvs_progress s" "length buf \<le> len" "len - length buf \<le> length (rx s)"
    "len \<le> BUFSZ"
  shows "\<exists>n. recv_loop s len buf =
     Some (s\<lparr>rx := drop (len - length buf) (rx s), rcalls := rcalls s + n\<rparr>,
           Inr (buf @ take (len - length buf) (rx s)))"
  using assms
proof (induction "len - length buf" arbitrary: s buf rule: less_induct)
  case less
  show ?case
  proof (cases "length buf < len")
    case False
    with less.prems have "len - length buf = 0"
      by simp
    moreover from False have "recv_loop s len buf = Some (s, Inr buf)"
      by (subst recv_loop.simps) simp
    ultimately show ?thesis
      by (intro exI [of _ 0]) simp
  next
    case True
    let ?n = "len - length buf"
    from recv_progress_step [OF less.prems(1), of ?n] obtain k where k: "k > 0"
      and rcv: "recv s ?n =
        (s\<lparr>rx := drop (min k ?n) (rx s), rcalls := Suc (rcalls s)\<rparr>,
         Some (take (min k ?n) (rx s)))"
      by blast
    let ?s1 = "s\<lparr>rx := drop (min k ?n) (rx s), rcalls := Suc (rcalls s)\<rparr>"
    let ?bs = "take (min k ?n) (rx s)"
    have len_bs: "length ?bs = min k ?n"
      using less.prems(3) by simp
    have tr: "recv_trace s ?s1"
      unfolding recv_trace_def by (intro exI [of _ "drop (min k ?n) (rx s)"] exI [of _ 1]) simp
    have prog: "recvs_progress ?s1"
      using recvs_progress_trace [OF less.prems(1) tr] .
    have dec: "len - length (buf @ ?bs) < len - length buf"
      using True k len_bs by simp
    have le: "length (buf @ ?bs) \<le> len"
      using True len_bs by simp
    have avail: "len - length (buf @ ?bs) \<le> length (rx ?s1)"
      using less.prems(3) len_bs by simp
    from less.hyps [OF dec prog le avail less.prems(4)] obtain n where
      n: "recv_loop ?s1 len (buf @ ?bs) =
        Some (?s1\<lparr>rx := drop (len - length (buf @ ?bs)) (rx ?s1), rcalls := rcalls ?s1 + n\<rparr>,
              Inr ((buf @ ?bs) @ take (len - length (buf @ ?bs)) (rx ?s1)))"
      by blast
    have fits: "\<not> BUFSZ < length buf + length ?bs"
      using le less.prems(4) by simp
    have "recv_loop s len buf = recv_loop ?s1 len (buf @ ?bs)"
      using True rcv fits by (subst recv_loop.simps) simp
    also note n
    also have "drop (len - length (buf @ ?bs)) (rx ?s1) = drop ?n (rx s)"
      using len_bs True by (simp add: min_def)
    also have "(buf @ ?bs) @ take (len - length (buf @ ?bs)) (rx ?s1) = buf @ take ?n (rx s)"
    proof -
      have "?bs @ take (?n - min k ?n) (drop (min k ?n) (rx s)) = take (min k ?n + (?n - min k ?n)) (rx s)"
        by (simp only: take_add)
      also have "min k ?n + (?n - min k ?n) = ?n"
        by simp
      finally show ?thesis
        using len_bs by (simp add: diff_diff_eq)
    qed
    finally show ?thesis
      by (intro exI [of _ "Suc n"]) simp
  qed
qed

lemma recv_loop_total_on_fail:
  assumes "recv_sched s j = RecvFail" "rcalls s \<le> j"
  shows "\<exists>y. recv_loop s len buf = Some y"
  using assms
proof (induction "j - rcalls s" arbitrary: s buf rule: less_induct)
  case less
  show ?case
  proof (cases "length buf < len")
    case False
    then show ?thesis
      by (subst recv_loop.simps) simp
  next
    case True
    show ?thesis
    proof (cases "recv_sched s (rcalls s)")
      case RecvFail
      with True show ?thesis
        by (subst recv_loop.simps) (simp add: recv_def)
    next
      case (RecvOk k)
      let ?n = "len - length buf"
      let ?s1 = "s\<lparr>rx := drop (min k ?n) (rx s), rcalls := Suc (rcalls s)\<rparr>"
      let ?bs = "take (min k ?n) (rx s)"
      from RecvOk less.prems have "j \<noteq> rcalls s"
        by auto
      with less.prems have lt: "Suc (rcalls s) \<le> j"
        by simp
      then have "j - rcalls ?s1 < j - rcalls s"
        by simp
      from less.hyps [OF this, of "buf @ ?bs"] less.prems(1) lt
      obtain y where y: "recv_loop ?s1 len (buf @ ?bs) = Some y"
        by auto
      have "recv_loop s len buf =
        (if BUFSZ < length buf + length ?bs then Some (?s1, Inl OutOfBounds)
         else recv_loop ?s1 len (buf @ ?bs))"
        using True RecvOk by (subst recv_loop.simps) (simp add: recv_def)
      with y show ?thesis
        by simp
    qed
  qed
qed

section \<open>Reading a frame\<close>

lemma read_frame_refused:
  assumes "\<not> header_arrives s"
  shows "read_frame s = Some (fst (recv s 4), Inl RecvFailed)"
proof (cases "recv_sched s (rcalls s)")
  case RecvFail
  then show ?thesis
    by (simp add: read_frame_def recv_def)
next
  case (RecvOk k)
  with assms have "min (length (rx s)) (min k 4) \<noteq> 4"
    by (auto simp: header_arrives_def min_def)
  with RecvOk show ?thesis
    by (simp add: read_frame_def recv_def)
qed

lemma recv_header_arrives:
  assumes "header_arrives s"
  shows "recv s 4 = (s\<lparr>rx := drop 4 (rx s), rcalls := Suc (rcalls s)\<rparr>, Some (take 4 (rx s)))"
    and "recv_sched s (rcalls s) \<noteq> RecvFail"
proof -
  from assms obtain k where k: "recv_sched s (rcalls s) = RecvOk k" "4 \<le> k" "4 \<le> length (rx s)"
    by (cases "recv_sched s (rcalls s)") (auto simp: header_arrives_def)
  then show "recv s 4 = (s\<lparr>rx := drop 4 (rx s), rcalls := Suc (rcalls s)\<rparr>, Some (take 4 (rx s)))"
    by (simp add: recv_def min_def)
  from k show "recv_sched s (rcalls s) \<noteq> RecvFail"
    by simp
qed

lemma read_frame_arrived:
  assumes "header_arrives s"
  shows "read_frame s =
     (case recv_loop (s\<lparr>rx := drop 4 (rx s), rcalls := Suc (rcalls s)\<rparr>)
             (ntohl_bytes (take 4 (rx s))) [] of
        None \<Rightarrow> None
      | Some (s2, Inl e) \<Rightarrow> Some (s2, Inl e)
      | Some (s2, Inr buf) \<Rightarrow>
          if BUFSZ \<le> ntohl_bytes (take 4 (rx s)) then Some (s2, Inl OutOfBounds)
          else Some (s2, Inr (c_str (buf @ [NUL]))))"
proof -
  from assms have "4 \<le> length (rx s)"
    by (cases "recv_sched s (rcalls s)") (auto simp: header_arrives_def)
  then show ?thesis
    by (simp add: read_frame_def recv_header_arrives(1) [OF assms])
qed

lemma read_frame_sound:
  assumes "read_frame s = Some (s', r)"
  shows "recv_trace s s' \<and>
     (case r of
        Inr str \<Rightarrow> header_arrives s \<and> \<not> recv_failed_between s s'
      | Inl e \<Rightarrow> (e = RecvFailed \<and> (recv_failed_between s s' \<or> \<not> header_arrives s)) \<or>
                 (e = OutOfBounds \<and> header_arrives s \<and> \<not> recv_failed_between s s'))"
proof (cases "header_arrives s")
  case False
  with assms read_frame_refused [OF False] have "s' = fst (recv s 4)" "r = Inl RecvFailed"
    by simp_all
  with False show ?thesis
    by (simp add: recv_trace_recv)
next
  case True
  let ?s1 = "s\<lparr>rx := drop 4 (rx s), rcalls := Suc (rcalls s)\<rparr>"
  let ?len = "ntohl_bytes (take 4 (rx s))"
  have tr: "recv_trace s ?s1"
    unfolding recv_trace_def by (intro exI [of _ "drop 4 (rx s)"] exI [of _ 1]) simp
  note nofail = recv_header_arrives(2) [OF True]
  from assms read_frame_arrived [OF True] obtain s2 r2 where
    loop: "recv_loop ?s1 ?len [] = Some (s2, r2)"
    by (cases "recv_loop ?s1 ?len []") auto
  note snd = recv_loop_sound [OF loop]
  then have tr2: "recv_trace ?s1 s2"
    by simp
  have iff: "recv_failed_between s s2 \<longleftrightarrow> recv_failed_between ?s1 s2"
    by (rule recv_failed_between_step [OF nofail tr2 tr]) simp
  from assms read_frame_arrived [OF True] loop have s': "s' = s2"
    by (cases r2) (auto split: if_splits)
  show ?thesis
  proof (cases r2)
    case (Inl e)
    with assms read_frame_arrived [OF True] loop have "r = Inl e"
      by simp
    with snd Inl True show ?thesis
      using recv_trace_trans [OF tr tr2] by (auto simp: s' iff)
  next
    case (Inr buf)
    with assms read_frame_arrived [OF True] loop
    have "r = Inl OutOfBounds \<or> r = Inr (c_str (buf @ [NUL]))"
      by (auto split: if_splits)
    with snd Inr True show ?thesis
      using recv_trace_trans [OF tr tr2] by (auto simp: s' iff)
  qed
qed

lemma read_frame_total_on_fail:
  assumes "recv_sched s j = RecvFail" "rcalls s \<le> j"
  shows "\<exists>y. read_frame s = Some y"
proof (cases "header_arrives s")
  case False
  then show ?thesis
    by (simp add: read_frame_refused)
next
  case True
  let ?s1 = "s\<lparr>rx := drop 4 (rx s), rcalls := Suc (rcalls s)\<rparr>"
  from recv_header_arrives(2) [OF True] assms have "j \<noteq> rcalls s"
    by auto
  with assms have "recv_sched ?s1 j = RecvFail" "rcalls ?s1 \<le> j"
    by simp_all
  from recv_loop_total_on_fail [OF this] obtain y where
    "recv_loop ?s1 (ntohl_bytes (take 4 (rx s))) [] = Some y"
    by blast
  then show ?thesis
    by (cases y, cases "snd y") (auto simp: read_frame_arrived [OF True])
qed

lemma c_str_terminated:
  assumes "NUL \<notin> set p"
  shows "c_str (p @ [NUL]) = p"
  using assms unfolding c_str_def by (induction p) auto

lemma read_frame_ok:
  assumes "header_arrives s" "recvs_progress s"
    "rx s = htonl_bytes (length p) @ p @ rest" "length p < BUFSZ"
  shows "\<exists>n. read_frame s = Some (s\<lparr>rx := rest, rcalls := rcalls s + n\<rparr>, Inr (c_str (p @ [NUL])))"
proof -
  let ?s1 = "s\<lparr>rx := drop 4 (rx s), rcalls := Suc (rcalls s)\<rparr>"
  have hdr: "take 4 (rx s) = htonl_bytes (length p)" and rest: "drop 4 (rx s) = p @ rest"
    using assms(3) by (simp_all add: length_htonl_bytes)
  have "length p < 2 ^ 32"
    using assms(4) by (simp add: BUFSZ_def)
  then have len: "ntohl_bytes (take 4 (rx s)) = length p"
    by (simp add: hdr ntohl_htonl)
  have tr: "recv_trace s ?s1"
    unfolding recv_trace_def by (intro exI [of _ "drop 4 (rx s)"] exI [of _ 1]) simp
  have prog: "recvs_progress ?s1"
    using recvs_progress_trace [OF assms(2) tr] .
  from recv_loop_ok [OF prog, of "[]" "length p"] assms(4) rest obtain n where
    "recv_loop ?s1 (length p) [] =
       Some (?s1\<lparr>rx := drop (length p) (rx ?s1), rcalls := rcalls ?s1 + n\<rparr>,
             Inr (take (length p) (rx ?s1)))"
    by auto
  then have "recv_loop ?s1 (length p) [] =
       Some (s\<lparr>rx := rest, rcalls := rcalls s + Suc n\<rparr>, Inr p)"
    by (simp add: rest)
  with assms(4) show ?thesis
    by (intro exI [of _ "Suc n"]) (simp add: read_frame_arrived [OF assms(1)] len)
qed

section \<open>Failures of \<^verbatim>\<open>receive_request\<close>\<close>

text \<open>
  A \<^verbatim>\<open>recv\<close> that returns -1, and a first \<^verbatim>\<open>recv\<close> that does not return the 4 bytes of
  the header, make \<^verbatim>\<open>receive_request\<close> return \<^verbatim>\<open>Request(QUIT)\<close>: whenever the call
  returns after one, its result is the sentinel; a header that does not arrive makes the
  call return it at once; and the call returns whenever a \<^verbatim>\<open>recv\<close> that returns -1 lies
  ahead in the schedule.
\<close>

lemma receive_request_quit_on_error:
  "(\<forall>s' out. receive_request parseRequest s = Some (s', out) \<and>
        (recv_failed_between s s' \<or> \<not> header_arrives s) \<longrightarrow>
      out = Inr (Request_of QUIT)) \<and>
   (\<not> header_arrives s \<longrightarrow>
      (\<exists>s'. receive_request parseRequest s = Some (s', Inr (Request_of QUIT)))) \<and>
   ((\<exists>j\<ge>rcalls s. recv_sched s j = RecvFail) \<longrightarrow>
      (\<exists>y. receive_request parseRequest s = Some y))"
proof (intro conjI allI impI)
  fix s' out
  assume a: "receive_request parseRequest s = Some (s', out) \<and>
    (recv_failed_between s s' \<or> \<not> header_arrives s)"
  then obtain r where frame: "read_frame s = Some (s', r)"
    by (cases "read_frame s") (auto simp: receive_request_def split: sum.splits failure.splits)
  from read_frame_sound [OF frame] a have "r = Inl RecvFailed"
    by (cases r) auto
  with a frame show "out = Inr (Request_of QUIT)"
    by (simp add: receive_request_def)
next
  assume "\<not> header_arrives s"
  from read_frame_refused [OF this]
  show "\<exists>s'. receive_request parseRequest s = Some (s', Inr (Request_of QUIT))"
    by (simp add: receive_request_def)
next
  assume "\<exists>j\<ge>rcalls s. recv_sched s j = RecvFail"
  then obtain j where "recv_sched s j = RecvFail" "rcalls s \<le> j"
    by blast
  from read_frame_total_on_fail [OF this] obtain s' r where "read_frame s = Some (s', r)"
    by auto
  then show "\<exists>y. receive_request parseRequest s = Some y"
    by (cases r) (auto simp: receive_request_def split: failure.splits)
qed

section \<open>The header read\<close>

text \<open>
  C8, as the claim states it, fails: the header is read by one \<^verbatim>\<open>recv\<close> of 4 bytes, and a
  return value other than 4 ends the read. Here the peer has sent a whole frame (header
  and the payload \<open>hi\<close>) and the transport delivers two bytes per call, so the four bytes of
  the header would arrive with the second call; the read fails after the first, and
  \<^verbatim>\<open>receive_request\<close> returns \<^verbatim>\<open>Request(QUIT)\<close>.
\<close>

theorem header_split_counterexample:
  "read_frame (fresh_socket (htonl_bytes 2 @ ''hi'') (\<lambda>i. RecvOk 2) (\<lambda>i. SendOk 1)) =
     Some (\<lparr>rx = [CHR 0x00, CHR 0x02] @ ''hi'', tx = [], recv_sched = (\<lambda>i. RecvOk 2),
             send_sched = (\<lambda>i. SendOk 1), rcalls = 1, scalls = 0\<rparr>, Inl RecvFailed) \<and>
   receive_request (\<lambda>str. Inr (Request_of BALANCE))
       (fresh_socket (htonl_bytes 2 @ ''hi'') (\<lambda>i. RecvOk 2) (\<lambda>i. SendOk 1)) =
     Some (\<lparr>rx = [CHR 0x00, CHR 0x02] @ ''hi'', tx = [], recv_sched = (\<lambda>i. RecvOk 2),
             send_sched = (\<lambda>i. SendOk 1), rcalls = 1, scalls = 0\<rparr>,
           Inr (Request_of QUIT :: int Request))"
  by (simp add: receive_request_def read_frame_def recv_def fresh_socket_def htonl_bytes_def
      char_of_def bit_0)

text \<open>
  C8, amended. The header read succeeds exactly when the first \<^verbatim>\<open>recv\<close> returns all 4
  bytes: the peer has sent at least 4 and the transport delivers at least 4 in that call.
  Then a failed frame read comes from a later \<^verbatim>\<open>recv\<close> that returned -1. When the first
  \<^verbatim>\<open>recv\<close> returns anything else (-1, 0 at a closed connection, or 1 to 3 bytes) the frame
  read fails after that one call, whatever the peer delivers later; so does the
  response-reading half of \<^verbatim>\<open>send_request\<close>.
\<close>

theorem header_read_one_recv:
  "(header_arrives s \<longrightarrow>
      (\<forall>s'. read_frame s = Some (s', Inl RecvFailed) \<longrightarrow>
         recv_failed_between (s\<lparr>rx := drop 4 (rx s), rcalls := Suc (rcalls s)\<rparr>) s')) \<and>
   (\<not> header_arrives s \<longrightarrow>
      read_frame s = Some (fst (recv s 4), Inl RecvFailed) \<and>
      rcalls (fst (recv s 4)) = Suc (rcalls s) \<and>
      read_response P success_init balance_init s = Some (fst (recv s 4), Inl RecvFailed))"
proof (intro conjI allI impI)
  fix s'
  assume arrives: "header_arrives s" and failed: "read_frame s = Some (s', Inl RecvFailed)"
  let ?s1 = "s\<lparr>rx := drop 4 (rx s), rcalls := Suc (rcalls s)\<rparr>"
  from failed read_frame_arrived [OF arrives] obtain s2 r2 where
    loop: "recv_loop ?s1 (ntohl_bytes (take 4 (rx s))) [] = Some (s2, r2)"
    by (cases "recv_loop ?s1 (ntohl_bytes (take 4 (rx s))) []") auto
  with failed read_frame_arrived [OF arrives] have "s2 = s'" "r2 = Inl RecvFailed"
    by (cases r2; auto split: if_splits)+
  with recv_loop_sound [OF loop] show "recv_failed_between ?s1 s'"
    by simp
next
  assume "\<not> header_arrives s"
  then show "read_frame s = Some (fst (recv s 4), Inl RecvFailed)"
    by (rule read_frame_refused)
next
  show "rcalls (fst (recv s 4)) = Suc (rcalls s)"
    by (rule rcalls_recv)
next
  assume "\<not> header_arrives s"
  then show "read_response P success_init balance_init s = Some (fst (recv s 4), Inl RecvFailed)"
    by (simp add: read_response_def read_frame_refused)
qed

theorem header_read_one_recv_witness:
  "\<not> header_arrives (fresh_socket (htonl_bytes 2 @ ''hi'') (\<lambda>i. RecvOk 3) (\<lambda>i. SendOk 1)) \<and>
   read_frame (fresh_socket (htonl_bytes 2 @ ''hi'') (\<lambda>i. RecvOk 3) (\<lambda>i. SendOk 1)) =
     Some (\<lparr>rx = [CHR 0x02] @ ''hi'', tx = [], recv_sched = (\<lambda>i. RecvOk 3),
             send_sched = (\<lambda>i. SendOk 1), rcalls = 1, scalls = 0\<rparr>, Inl RecvFailed) \<and>
   header_arrives
     (fresh_socket (htonl_bytes 2 @ ''hi'') (\<lambda>i. if i = 1 then RecvFail else RecvOk 4)
        (\<lambda>i. SendOk 1)) \<and>
   read_frame
     (fresh_socket (htonl_bytes 2 @ ''hi'') (\<lambda>i. if i = 1 then RecvFail else RecvOk 4)
        (\<lambda>i. SendOk 1)) =
     Some (\<lparr>rx = ''hi'', tx = [], recv_sched = (\<lambda>i. if i = 1 then RecvFail else RecvOk 4),
             send_sched = (\<lambda>i. SendOk 1), rcalls = 2, scalls = 0\<rparr>, Inl RecvFailed) \<and>
   recv_failed_between
     \<lparr>rx = ''hi'', tx = [], recv_sched = (\<lambda>i. if i = 1 then RecvFail else RecvOk 4),
       send_sched = (\<lambda>i. SendOk 1), rcalls = 1, scalls = 0\<rparr>
     \<lparr>rx = ''hi'', tx = [], recv_sched = (\<lambda>i. if i = 1 then RecvFail else RecvOk 4),
       send_sched = (\<lambda>i. SendOk 1), rcalls = 2, scalls = 0\<rparr>"
proof -
  let ?t = "fresh_socket (htonl_bytes 2 @ ''hi'') (\<lambda>i. RecvOk 3) (\<lambda>i. SendOk 1)"
  let ?s = "fresh_socket (htonl_bytes 2 @ ''hi'') (\<lambda>i. if i = 1 then RecvFail else RecvOk 4)
        (\<lambda>i. SendOk 1)"
  have short: "\<not> header_arrives ?t"
    by (simp add: header_arrives_def fresh_socket_def)
  have whole: "header_arrives ?s"
    by (simp add: header_arrives_def fresh_socket_def htonl_bytes_def)
  have ev: "read_frame ?s =
     Some (\<lparr>rx = ''hi'', tx = [], recv_sched = (\<lambda>i. if i = 1 then RecvFail else RecvOk 4),
             send_sched = (\<lambda>i. SendOk 1), rcalls = 2, scalls = 0\<rparr>, Inl RecvFailed)"
    by (simp add: read_frame_def recv_loop.simps recv_def fresh_socket_def htonl_bytes_def
        BUFSZ_def)
  from header_read_one_recv [where s = ?t and P = whole_platform and success_init = False
      and balance_init = 0] short
  have "read_frame ?t = Some (fst (recv ?t 4), Inl RecvFailed)"
    by simp
  then have evt: "read_frame ?t =
     Some (\<lparr>rx = [CHR 0x02] @ ''hi'', tx = [], recv_sched = (\<lambda>i. RecvOk 3),
             send_sched = (\<lambda>i. SendOk 1), rcalls = 1, scalls = 0\<rparr>, Inl RecvFailed)"
    by (simp add: recv_def fresh_socket_def htonl_bytes_def char_of_def bit_0)
  from header_read_one_recv [where s = ?s and P = whole_platform and success_init = False
      and balance_init = 0] whole ev
  have "recv_failed_between (?s\<lparr>rx := drop 4 (rx ?s), rcalls := Suc (rcalls ?s)\<rparr>)
     \<lparr>rx = ''hi'', tx = [], recv_sched = (\<lambda>i. if i = 1 then RecvFail else RecvOk 4),
       send_sched = (\<lambda>i. SendOk 1), rcalls = 2, scalls = 0\<rparr>"
    by blast
  then have "recv_failed_between
     \<lparr>rx = ''hi'', tx = [], recv_sched = (\<lambda>i. if i = 1 then RecvFail else RecvOk 4),
       send_sched = (\<lambda>i. SendOk 1), rcalls = 1, scalls = 0\<rparr>
     \<lparr>rx = ''hi'', tx = [], recv_sched = (\<lambda>i. if i = 1 then RecvFail else RecvOk 4),
       send_sched = (\<lambda>i. SendOk 1), rcalls = 2, scalls = 0\<rparr>"
    by (simp add: fresh_socket_def htonl_bytes_def)
  with short evt whole ev show ?thesis
    by blast
qed

section \<open>Frames longer than the buffer\<close>

text \<open>
  C1. The code has no check of the declared length against the 1024 bytes of the buffer.
  A frame that declares 1025 bytes and delivers them is written into the buffer by
  \<^verbatim>\<open>recv\<close> as it arrives: the read ends in a write past the end of the buffer, in
  \<^verbatim>\<open>receive_request\<close> and in \<^verbatim>\<open>send_request\<close> alike, and no error is returned for it.
\<close>

theorem oversize_frame_overflows:
  "read_frame (fresh_socket (htonl_bytes 1025 @ replicate 1025 (CHR ''A''))
       (\<lambda>i. RecvOk 4096) (\<lambda>i. SendOk 1)) =
     Some (\<lparr>rx = [], tx = [], recv_sched = (\<lambda>i. RecvOk 4096), send_sched = (\<lambda>i. SendOk 1),
             rcalls = 2, scalls = 0\<rparr>, Inl OutOfBounds) \<and>
   receive_request (\<lambda>str. Inr (Request_of BALANCE))
       (fresh_socket (htonl_bytes 1025 @ replicate 1025 (CHR ''A''))
          (\<lambda>i. RecvOk 4096) (\<lambda>i. SendOk 1)) =
     Some (\<lparr>rx = [], tx = [], recv_sched = (\<lambda>i. RecvOk 4096), send_sched = (\<lambda>i. SendOk 1),
             rcalls = 2, scalls = 0\<rparr>, Inl OutOfBounds :: failure + int Request) \<and>
   read_response whole_platform False 0
       (fresh_socket (htonl_bytes 1025 @ replicate 1025 (CHR ''A''))
          (\<lambda>i. RecvOk 4096) (\<lambda>i. SendOk 1)) =
     Some (\<lparr>rx = [], tx = [], recv_sched = (\<lambda>i. RecvOk 4096), send_sched = (\<lambda>i. SendOk 1),
             rcalls = 2, scalls = 0\<rparr>, Inl OutOfBounds)"
proof -
  have "read_frame (fresh_socket (htonl_bytes 1025 @ replicate 1025 (CHR ''A''))
       (\<lambda>i. RecvOk 4096) (\<lambda>i. SendOk 1)) =
     Some (\<lparr>rx = [], tx = [], recv_sched = (\<lambda>i. RecvOk 4096), send_sched = (\<lambda>i. SendOk 1),
             rcalls = 2, scalls = 0\<rparr>, Inl OutOfBounds)"
    by (simp add: read_frame_def recv_loop.simps recv_def fresh_socket_def htonl_bytes_def
        BUFSZ_def)
  then show ?thesis
    by (simp add: receive_request_def read_response_def)
qed

section \<open>A frame written and read back\<close>

lemma send_response_ok:
  assumes "sends_progress w" "length (encode_response P resp) \<le> BUFSZ"
  shows "\<exists>n. send_response P w resp =
     Some (w\<lparr>tx := tx w @ htonl_bytes (length (encode_response P resp)) @ encode_response P resp,
             scalls := scalls w + n\<rparr>, Inr ())"
proof -
  let ?str = "encode_response P resp"
  let ?hdr = "htonl_bytes (length ?str)"
  from send_loop_resp_ok [OF assms(1), of ?hdr 0] obtain n where
    hdr: "send_loop_resp w ?hdr 0 = Some (w\<lparr>tx := tx w @ ?hdr, scalls := scalls w + n\<rparr>)"
    by auto
  let ?w1 = "w\<lparr>tx := tx w @ ?hdr, scalls := scalls w + n\<rparr>"
  have "sends_progress ?w1"
    by (rule sends_progress_later [OF assms(1)])
  from send_loop_resp_ok [OF this, of ?str 0] obtain m where
    msg: "send_loop_resp ?w1 ?str 0 = Some (?w1\<lparr>tx := tx ?w1 @ ?str, scalls := scalls ?w1 + m\<rparr>)"
    by auto
  from hdr msg assms(2) show ?thesis
    by (intro exI [of _ "n + m"]) (simp add: send_response_def memcpy_buf_def Let_def add.assoc)
qed

text \<open>
  C2, as the claim states it, fails. \<^verbatim>\<open>send_response\<close> writes the frame of the response
  \<open>1|100||OK\<close> in sends of three bytes; the transport then delivers it three bytes per receive.
  The single \<^verbatim>\<open>recv\<close> of the header returns 3, not 4, and the frame read fails instead of
  returning the payload.
\<close>

theorem framing_split_header_counterexample:
  "send_response whole_platform (fresh_socket [] (\<lambda>i. RecvOk 3) (\<lambda>i. SendOk 3))
       \<lparr>success = True, balance = 100, data = [], message = ''OK''\<rparr> =
     Some (\<lparr>rx = [], tx = htonl_bytes 9 @ ''1|100||OK'', recv_sched = (\<lambda>i. RecvOk 3),
             send_sched = (\<lambda>i. SendOk 3), rcalls = 0, scalls = 5\<rparr>, Inr ()) \<and>
   read_frame (fresh_socket (htonl_bytes 9 @ ''1|100||OK'') (\<lambda>i. RecvOk 3) (\<lambda>i. SendOk 3)) =
     Some (\<lparr>rx = [CHR 0x09] @ ''1|100||OK'', tx = [],
             recv_sched = (\<lambda>i. RecvOk 3), send_sched = (\<lambda>i. SendOk 3), rcalls = 1,
             scalls = 0\<rparr>, Inl RecvFailed)"
proof -
  have enc: "encode_response whole_platform
      \<lparr>success = True, balance = 100, data = [], message = ''OK''\<rparr> = ''1|100||OK''"
    by (simp add: encode_response_def whole_platform_def int_out_def digits.simps char_of_def
        bit_0)
  have hdr: "htonl_bytes 9 = [CHR 0x00, CHR 0x00, CHR 0x00, CHR 0x09]"
    by (simp add: htonl_bytes_def char_of_def bit_0)
  have len: "length (encode_response whole_platform
      \<lparr>success = True, balance = 100, data = [], message = ''OK''\<rparr>) = 9"
    by (simp add: enc)
  let ?w1 = "\<lparr>rx = [], tx = htonl_bytes 9, recv_sched = (\<lambda>i. RecvOk 3),
             send_sched = (\<lambda>i. SendOk 3), rcalls = 0, scalls = 2\<rparr>"
  have h: "send_loop_resp (fresh_socket [] (\<lambda>i. RecvOk 3) (\<lambda>i. SendOk 3)) (htonl_bytes 9) 0 =
      Some ?w1"
    by (simp add: hdr send_loop_resp.simps send_def fresh_socket_def)
  have m: "send_loop_resp ?w1 ''1|100||OK'' 0 =
      Some \<lparr>rx = [], tx = htonl_bytes 9 @ ''1|100||OK'', recv_sched = (\<lambda>i. RecvOk 3),
             send_sched = (\<lambda>i. SendOk 3), rcalls = 0, scalls = 5\<rparr>"
    by (simp add: hdr send_loop_resp.simps send_def)
  have "send_response whole_platform (fresh_socket [] (\<lambda>i. RecvOk 3) (\<lambda>i. SendOk 3))
       \<lparr>success = True, balance = 100, data = [], message = ''OK''\<rparr> =
     Some (\<lparr>rx = [], tx = htonl_bytes 9 @ ''1|100||OK'', recv_sched = (\<lambda>i. RecvOk 3),
             send_sched = (\<lambda>i. SendOk 3), rcalls = 0, scalls = 5\<rparr>, Inr ())"
    unfolding send_response_def Let_def len
    by (simp add: enc h m memcpy_buf_def BUFSZ_def)
  moreover have "read_frame
      (fresh_socket (htonl_bytes 9 @ ''1|100||OK'') (\<lambda>i. RecvOk 3) (\<lambda>i. SendOk 3)) =
     Some (\<lparr>rx = [CHR 0x09] @ ''1|100||OK'', tx = [],
             recv_sched = (\<lambda>i. RecvOk 3), send_sched = (\<lambda>i. SendOk 3), rcalls = 1,
             scalls = 0\<rparr>, Inl RecvFailed)"
    by (simp add: read_frame_def hdr recv_def fresh_socket_def)
  ultimately show ?thesis
    by simp
qed

text \<open>
  C2, amended. For every response whose encoded text is shorter than the 1024 bytes of the
  buffer and holds no NUL byte: \<^verbatim>\<open>send_response\<close>, over any schedule in which each send
  takes at least one byte, puts exactly the 4-byte header and the text on the wire; and a
  reader whose incoming bytes are that frame (and whatever follows it), over any schedule
  in which the first receive delivers the 4 bytes of the header and each later receive
  at least one byte, reads exactly the text and leaves what follows: \<^verbatim>\<open>receive_request\<close>
  hands the text to \<^verbatim>\<open>Request::parseRequest\<close>, and \<^verbatim>\<open>send_request\<close> decodes it.
\<close>

theorem framing_integrity:
  assumes "sends_progress w"
    and "recvs_progress s"
    and "\<exists>k\<ge>4. recv_sched s (rcalls s) = RecvOk k"
    and "length (encode_response P resp) < BUFSZ"
    and "NUL \<notin> set (encode_response P resp)"
  shows "\<exists>w' s'.
     send_response P w resp = Some (w', Inr ()) \<and>
     tx w' = tx w @ htonl_bytes (length (encode_response P resp)) @ encode_response P resp \<and>
     read_frame
       (s\<lparr>rx := htonl_bytes (length (encode_response P resp)) @ encode_response P resp @ rest\<rparr>) =
       Some (s', Inr (encode_response P resp)) \<and>
     rx s' = rest \<and>
     receive_request parseRequest
       (s\<lparr>rx := htonl_bytes (length (encode_response P resp)) @ encode_response P resp @ rest\<rparr>) =
       Some (s', parseRequest (encode_response P resp)) \<and>
     read_response P success_init balance_init
       (s\<lparr>rx := htonl_bytes (length (encode_response P resp)) @ encode_response P resp @ rest\<rparr>) =
       Some (s', decode_response P success_init balance_init (encode_response P resp))"
proof -
  let ?p = "encode_response P resp"
  let ?r = "s\<lparr>rx := htonl_bytes (length ?p) @ ?p @ rest\<rparr>"
  from send_response_ok [OF assms(1), of P resp] assms(4) obtain n where
    wr: "send_response P w resp =
      Some (w\<lparr>tx := tx w @ htonl_bytes (length ?p) @ ?p, scalls := scalls w + n\<rparr>, Inr ())"
    by auto
  from assms(3) have arrives: "header_arrives ?r"
    by (auto simp: header_arrives_def length_htonl_bytes)
  from assms(2) have prog: "recvs_progress ?r"
    by (simp add: recvs_progress_def)
  from read_frame_ok [OF arrives prog _ assms(4), of rest] obtain m where
    "read_frame ?r = Some (?r\<lparr>rx := rest, rcalls := rcalls ?r + m\<rparr>, Inr (c_str (?p @ [NUL])))"
    by auto
  then have rd: "read_frame ?r = Some (?r\<lparr>rx := rest, rcalls := rcalls ?r + m\<rparr>, Inr ?p)"
    by (simp add: c_str_terminated [OF assms(5)])
  then have "receive_request parseRequest ?r =
      Some (?r\<lparr>rx := rest, rcalls := rcalls ?r + m\<rparr>, parseRequest ?p)"
    and "read_response P success_init balance_init ?r =
      Some (?r\<lparr>rx := rest, rcalls := rcalls ?r + m\<rparr>,
            decode_response P success_init balance_init ?p)"
    by (simp_all add: receive_request_def read_response_def)
  with wr rd show ?thesis
    by (intro exI [of _ "w\<lparr>tx := tx w @ htonl_bytes (length ?p) @ ?p, scalls := scalls w + n\<rparr>"]
        exI [of _ "?r\<lparr>rx := rest, rcalls := rcalls ?r + m\<rparr>"]) simp
qed

theorem framing_integrity_witness:
  "sends_progress (fresh_socket [] (\<lambda>i. RecvOk 2) (\<lambda>i. SendOk 3)) \<and>
   recvs_progress (fresh_socket [] (\<lambda>i. if i = 0 then RecvOk 4 else RecvOk 2) (\<lambda>i. SendOk 3)) \<and>
   length (encode_response whole_platform
      \<lparr>success = True, balance = 100, data = [], message = ''OK''\<rparr>) < BUFSZ \<and>
   NUL \<notin> set (encode_response whole_platform
      \<lparr>success = True, balance = 100, data = [], message = ''OK''\<rparr>) \<and>
   (\<exists>w' s'.
      send_response whole_platform (fresh_socket [] (\<lambda>i. RecvOk 2) (\<lambda>i. SendOk 3))
        \<lparr>success = True, balance = 100, data = [], message = ''OK''\<rparr> = Some (w', Inr ()) \<and>
      tx w' = htonl_bytes 9 @ ''1|100||OK'' \<and>
      read_frame
        (fresh_socket (htonl_bytes 9 @ ''1|100||OK'')
           (\<lambda>i. if i = 0 then RecvOk 4 else RecvOk 2) (\<lambda>i. SendOk 3)) =
        Some (s', Inr ''1|100||OK'') \<and>
      rx s' = [])"
proof -
  let ?resp = "\<lparr>success = True, balance = 100, data = [], message = ''OK''\<rparr> :: int Response"
  let ?w = "fresh_socket [] (\<lambda>i. RecvOk 2) (\<lambda>i. SendOk 3)"
  let ?s = "fresh_socket [] (\<lambda>i. if i = 0 then RecvOk 4 else RecvOk 2) (\<lambda>i. SendOk 3)"
  have enc: "encode_response whole_platform ?resp = ''1|100||OK''"
    by (simp add: encode_response_def whole_platform_def int_out_def digits.simps char_of_def
        bit_0)
  have len: "length (encode_response whole_platform ?resp) = 9"
    by (simp add: enc)
  have h1: "sends_progress ?w"
    by (simp add: sends_progress_def fresh_socket_def)
  have h2: "recvs_progress ?s"
    by (simp add: recvs_progress_def fresh_socket_def)
  have h3: "\<exists>k\<ge>4. recv_sched ?s (rcalls ?s) = RecvOk k"
    by (simp add: fresh_socket_def)
  have h4: "length (encode_response whole_platform ?resp) < BUFSZ"
    by (simp add: len BUFSZ_def)
  have h5: "NUL \<notin> set (encode_response whole_platform ?resp)"
    by (simp add: enc NUL_def)
  from framing_integrity [OF h1 h2 h3 h4 h5, of "[]" "\<lambda>str. Inr (Request_of BALANCE)" False 0]
  obtain w' s' where
    "send_response whole_platform ?w ?resp = Some (w', Inr ())"
    "tx w' = tx ?w @ htonl_bytes (length (encode_response whole_platform ?resp)) @
       encode_response whole_platform ?resp"
    "read_frame (?s\<lparr>rx := htonl_bytes (length (encode_response whole_platform ?resp)) @
       encode_response whole_platform ?resp @ []\<rparr>) =
     Some (s', Inr (encode_response whole_platform ?resp))"
    "rx s' = []"
    by blast
  then have "send_response whole_platform ?w ?resp = Some (w', Inr ()) \<and>
      tx w' = htonl_bytes 9 @ ''1|100||OK'' \<and>
      read_frame
        (fresh_socket (htonl_bytes 9 @ ''1|100||OK'')
           (\<lambda>i. if i = 0 then RecvOk 4 else RecvOk 2) (\<lambda>i. SendOk 3)) =
        Some (s', Inr ''1|100||OK'') \<and>
      rx s' = []"
    unfolding len by (simp add: enc fresh_socket_def)
  with h1 h2 h4 h5 show ?thesis
    by blast
qed

section \<open>Writing a request\<close>

lemma send_failed_between_trans:
  assumes "send_trace s s1" "send_trace s1 s2"
  shows "send_failed_between s s2 \<longleftrightarrow> send_failed_between s s1 \<or> send_failed_between s1 s2"
proof -
  note f1 = send_trace_fields [OF assms(1)] and f2 = send_trace_fields [OF assms(2)]
  show ?thesis
  proof
    assume "send_failed_between s s2"
    then obtain i where i: "scalls s \<le> i" "i < scalls s2" "send_sched s i = SendFail"
      unfolding send_failed_between_def by blast
    show "send_failed_between s s1 \<or> send_failed_between s1 s2"
    proof (cases "i < scalls s1")
      case True
      with i show ?thesis
        unfolding send_failed_between_def by blast
    next
      case False
      with i f1 have "scalls s1 \<le> i \<and> i < scalls s2 \<and> send_sched s1 i = SendFail"
        by simp
      then show ?thesis
        unfolding send_failed_between_def by blast
    qed
  next
    assume "send_failed_between s s1 \<or> send_failed_between s1 s2"
    then show "send_failed_between s s2"
    proof
      assume "send_failed_between s s1"
      then obtain i where "scalls s \<le> i" "i < scalls s1" "send_sched s i = SendFail"
        unfolding send_failed_between_def by blast
      with f2 have "scalls s \<le> i \<and> i < scalls s2 \<and> send_sched s i = SendFail"
        by simp
      then show ?thesis
        unfolding send_failed_between_def by blast
    next
      assume "send_failed_between s1 s2"
      then obtain i where "scalls s1 \<le> i" "i < scalls s2" "send_sched s1 i = SendFail"
        unfolding send_failed_between_def by blast
      with f1 have "scalls s \<le> i \<and> i < scalls s2 \<and> send_sched s i = SendFail"
        by simp
      then show ?thesis
        unfolding send_failed_between_def by blast
    qed
  qed
qed

lemma send_failed_between_same [simp]: "\<not> send_failed_between s s"
  by (simp add: send_failed_between_def)

lemma write_request_sound:
  assumes "write_request P s req = Some (s', r)"
  shows "send_trace s s' \<and>
     (case r of
        Inr u \<Rightarrow> \<not> send_failed_between s s' \<and> length (encode_request P req) \<le> BUFSZ
      | Inl e \<Rightarrow> (e = SendFailed \<and> send_failed_between s s') \<or>
                 (e = OutOfBounds \<and> \<not> send_failed_between s s' \<and>
                  BUFSZ < length (encode_request P req)))"
proof -
  let ?str = "encode_request P req"
  let ?hdr = "htonl_bytes (length ?str)"
  from assms obtain s1 r1 where hdr: "send_loop s ?hdr 0 = Some (s1, r1)"
    by (cases "send_loop s ?hdr 0") (auto simp: write_request_def Let_def)
  note h = send_loop_sound [OF hdr]
  show ?thesis
  proof (cases r1)
    case (Inl e)
    with assms hdr have "s' = s1" "r = Inl e"
      by (simp_all add: write_request_def Let_def)
    with h Inl show ?thesis
      by simp
  next
    case (Inr u)
    show ?thesis
    proof (cases "length ?str \<le> BUFSZ")
      case False
      with assms hdr Inr have "s' = s1" "r = Inl OutOfBounds"
        by (simp_all add: write_request_def Let_def memcpy_buf_def)
      with h Inr False show ?thesis
        by simp
    next
      case True
      with assms hdr Inr have msg: "send_loop s1 ?str 0 = Some (s', r)"
        by (simp add: write_request_def Let_def memcpy_buf_def)
      note m = send_loop_sound [OF msg]
      from h m have tr: "send_trace s s1" "send_trace s1 s'"
        by simp_all
      note iff = send_failed_between_trans [OF tr]
      from h Inr have "\<not> send_failed_between s s1"
        by simp
      with m True show ?thesis
        using send_trace_trans [OF tr] by (cases r) (simp_all add: iff)
    qed
  qed
qed

lemma write_request_ok:
  assumes "sends_progress s" "length (encode_request P req) \<le> BUFSZ"
  shows "\<exists>n. write_request P s req =
     Some (s\<lparr>tx := tx s @ htonl_bytes (length (encode_request P req)) @ encode_request P req,
             scalls := scalls s + n\<rparr>, Inr ())"
proof -
  let ?str = "encode_request P req"
  let ?hdr = "htonl_bytes (length ?str)"
  from send_loop_ok [OF assms(1), of ?hdr 0] obtain n where
    hdr: "send_loop s ?hdr 0 = Some (s\<lparr>tx := tx s @ ?hdr, scalls := scalls s + n\<rparr>, Inr ())"
    by auto
  let ?s1 = "s\<lparr>tx := tx s @ ?hdr, scalls := scalls s + n\<rparr>"
  have "sends_progress ?s1"
    by (rule sends_progress_later [OF assms(1)])
  from send_loop_ok [OF this, of ?str 0] obtain m where
    msg: "send_loop ?s1 ?str 0 =
      Some (?s1\<lparr>tx := tx ?s1 @ ?str, scalls := scalls ?s1 + m\<rparr>, Inr ())"
    by auto
  from hdr msg assms(2) show ?thesis
    by (intro exI [of _ "n + m"]) (simp add: write_request_def memcpy_buf_def Let_def add.assoc)
qed

lemma write_request_total:
  assumes "sends_no_stall s"
  shows "\<exists>y. write_request P s req = Some y"
proof -
  let ?str = "encode_request P req"
  let ?hdr = "htonl_bytes (length ?str)"
  from send_loop_total [OF assms, of ?hdr 0] obtain s1 r1 where
    hdr: "send_loop s ?hdr 0 = Some (s1, r1)"
    by auto
  from send_loop_sound [OF hdr] have "send_trace s s1"
    by simp
  from sends_no_stall_later [OF assms this] have "sends_no_stall s1" .
  from send_loop_total [OF this, of ?str 0] obtain y where "send_loop s1 ?str 0 = Some y"
    by auto
  with hdr show ?thesis
    by (cases r1) (auto simp: write_request_def Let_def memcpy_buf_def)
qed

lemma send_response_sound:
  assumes "send_response P s resp = Some (s', r)"
  shows "(r = Inr () \<and> length (encode_response P resp) \<le> BUFSZ) \<or>
         (r = Inl OutOfBounds \<and> BUFSZ < length (encode_response P resp))"
  using assms
  by (auto simp: send_response_def Let_def memcpy_buf_def split: option.splits if_splits)

lemma send_response_overflow:
  assumes "sends_progress s" "BUFSZ < length (encode_response P resp)"
  shows "\<exists>s'. send_response P s resp = Some (s', Inl OutOfBounds)"
proof -
  from send_loop_resp_ok [OF assms(1), of "htonl_bytes (length (encode_response P resp))" 0]
  obtain s1 where "send_loop_resp s (htonl_bytes (length (encode_response P resp))) 0 = Some s1"
    by auto
  with assms(2) show ?thesis
    by (simp add: send_response_def Let_def memcpy_buf_def)
qed

lemma write_request_overflow:
  assumes "sends_progress s" "BUFSZ < length (encode_request P req)"
  shows "\<exists>s'. write_request P s req = Some (s', Inl OutOfBounds)"
proof -
  from send_loop_ok [OF assms(1), of "htonl_bytes (length (encode_request P req))" 0]
  obtain s1 where
    "send_loop s (htonl_bytes (length (encode_request P req))) 0 = Some (s1, Inr ())"
    by auto
  with assms(2) show ?thesis
    by (simp add: write_request_def Let_def memcpy_buf_def)
qed

section \<open>The copy into the message buffer\<close>

text \<open>
  C10. \<^verbatim>\<open>send_request\<close> and \<^verbatim>\<open>send_response\<close> copy the encoded text into
  \<^verbatim>\<open>char message_buf[1024]\<close> with no check of its length. For a text of at most 1024 bytes
  no run writes out of bounds, and when every send takes at least one byte the header and
  the copied text are what is transmitted. For a longer text every run that returns ends in
  the write out of bounds (in \<^verbatim>\<open>send_request\<close>: unless a send of the header failed
  first, which returns before the copy), and a run in which every send takes at least one
  byte does end so.
\<close>

theorem message_copy_bounds:
  "(length (encode_request P req) \<le> BUFSZ \<longrightarrow>
      (\<forall>s'. write_request P s req \<noteq> Some (s', Inl OutOfBounds)) \<and>
      (sends_progress s \<longrightarrow>
         (\<exists>n. write_request P s req =
            Some (s\<lparr>tx := tx s @ htonl_bytes (length (encode_request P req)) @
                          encode_request P req,
                    scalls := scalls s + n\<rparr>, Inr ())))) \<and>
   (BUFSZ < length (encode_request P req) \<longrightarrow>
      (\<forall>s' r. write_request P s req = Some (s', r) \<longrightarrow>
         r = Inl OutOfBounds \<or> r = Inl SendFailed) \<and>
      (sends_progress s \<longrightarrow> (\<exists>s'. write_request P s req = Some (s', Inl OutOfBounds)))) \<and>
   (length (encode_response P resp) \<le> BUFSZ \<longrightarrow>
      (\<forall>s'. send_response P s resp \<noteq> Some (s', Inl OutOfBounds)) \<and>
      (sends_progress s \<longrightarrow>
         (\<exists>n. send_response P s resp =
            Some (s\<lparr>tx := tx s @ htonl_bytes (length (encode_response P resp)) @
                          encode_response P resp,
                    scalls := scalls s + n\<rparr>, Inr ())))) \<and>
   (BUFSZ < length (encode_response P resp) \<longrightarrow>
      (\<forall>s' r. send_response P s resp = Some (s', r) \<longrightarrow> r = Inl OutOfBounds) \<and>
      (sends_progress s \<longrightarrow> (\<exists>s'. send_response P s resp = Some (s', Inl OutOfBounds))))"
proof (intro conjI impI allI)
  fix s'
  assume "length (encode_request P req) \<le> BUFSZ"
  then show "write_request P s req \<noteq> Some (s', Inl OutOfBounds)"
    using write_request_sound [of P s req s' "Inl OutOfBounds"] by auto
next
  assume "length (encode_request P req) \<le> BUFSZ" "sends_progress s"
  then show "\<exists>n. write_request P s req =
            Some (s\<lparr>tx := tx s @ htonl_bytes (length (encode_request P req)) @
                          encode_request P req,
                    scalls := scalls s + n\<rparr>, Inr ())"
    using write_request_ok by blast
next
  fix s' r
  assume "BUFSZ < length (encode_request P req)" "write_request P s req = Some (s', r)"
  then show "r = Inl OutOfBounds \<or> r = Inl SendFailed"
    using write_request_sound [of P s req s' r] by (cases r) auto
next
  assume "BUFSZ < length (encode_request P req)" "sends_progress s"
  then show "\<exists>s'. write_request P s req = Some (s', Inl OutOfBounds)"
    using write_request_overflow by blast
next
  fix s'
  assume "length (encode_response P resp) \<le> BUFSZ"
  then show "send_response P s resp \<noteq> Some (s', Inl OutOfBounds)"
    using send_response_sound [of P s resp s' "Inl OutOfBounds"] by auto
next
  assume "length (encode_response P resp) \<le> BUFSZ" "sends_progress s"
  then show "\<exists>n. send_response P s resp =
            Some (s\<lparr>tx := tx s @ htonl_bytes (length (encode_response P resp)) @
                          encode_response P resp,
                    scalls := scalls s + n\<rparr>, Inr ())"
    using send_response_ok by blast
next
  fix s' r
  assume "BUFSZ < length (encode_response P resp)" "send_response P s resp = Some (s', r)"
  then show "r = Inl OutOfBounds"
    using send_response_sound [of P s resp s' r] by auto
next
  assume "BUFSZ < length (encode_response P resp)" "sends_progress s"
  then show "\<exists>s'. send_response P s resp = Some (s', Inl OutOfBounds)"
    using send_response_overflow by blast
qed

theorem message_copy_bounds_witness:
  "length (encode_request whole_platform
      \<lparr>req_type = BALANCE, user_id = 42, amount = 0, filename = [], req_data = []\<rparr>) \<le> BUFSZ \<and>
   sends_progress (fresh_socket [] (\<lambda>i. RecvOk 4) (\<lambda>i. SendOk 3)) \<and>
   (\<exists>n. write_request whole_platform (fresh_socket [] (\<lambda>i. RecvOk 4) (\<lambda>i. SendOk 3))
      \<lparr>req_type = BALANCE, user_id = 42, amount = 0, filename = [], req_data = []\<rparr> =
      Some (\<lparr>rx = [], tx = htonl_bytes 8 @ ''2|42|0||'', recv_sched = (\<lambda>i. RecvOk 4),
              send_sched = (\<lambda>i. SendOk 3), rcalls = 0, scalls = n\<rparr>, Inr ())) \<and>
   BUFSZ < length (encode_response whole_platform
      \<lparr>success = True, balance = 100, data = [], message = replicate 1030 (CHR ''x'')\<rparr>) \<and>
   (\<exists>s'. send_response whole_platform (fresh_socket [] (\<lambda>i. RecvOk 4) (\<lambda>i. SendOk 3))
      \<lparr>success = True, balance = 100, data = [], message = replicate 1030 (CHR ''x'')\<rparr> =
      Some (s', Inl OutOfBounds))"
proof -
  let ?req = "\<lparr>req_type = BALANCE, user_id = 42, amount = 0, filename = [], req_data = []\<rparr>
    :: int Request"
  let ?resp = "\<lparr>success = True, balance = 100, data = [],
    message = replicate 1030 (CHR ''x'')\<rparr> :: int Response"
  let ?s = "fresh_socket [] (\<lambda>i. RecvOk 4) (\<lambda>i. SendOk 3)"
  have enc: "encode_request whole_platform ?req = ''2|42|0||''"
    by (simp add: encode_request_def whole_platform_def int_out_def digits.simps char_of_def
        bit_0)
  have len: "length (encode_request whole_platform ?req) = 8"
    by (simp add: enc)
  have short: "length (encode_request whole_platform ?req) \<le> BUFSZ"
    by (simp add: len BUFSZ_def)
  have long: "BUFSZ < length (encode_response whole_platform ?resp)"
    by (simp add: encode_response_def BUFSZ_def)
  have prog: "sends_progress ?s"
    by (simp add: sends_progress_def fresh_socket_def)
  note inst = message_copy_bounds [of whole_platform ?req ?s ?resp]
  from inst short prog obtain n where
    "write_request whole_platform ?s ?req =
       Some (?s\<lparr>tx := tx ?s @ htonl_bytes (length (encode_request whole_platform ?req)) @
                     encode_request whole_platform ?req,
               scalls := scalls ?s + n\<rparr>, Inr ())"
    by blast
  then have wr: "\<exists>n. write_request whole_platform ?s ?req =
      Some (\<lparr>rx = [], tx = htonl_bytes 8 @ ''2|42|0||'', recv_sched = (\<lambda>i. RecvOk 4),
              send_sched = (\<lambda>i. SendOk 3), rcalls = 0, scalls = n\<rparr>, Inr ())"
    unfolding len by (simp add: enc fresh_socket_def)
  from inst long prog have "\<exists>s'. send_response whole_platform ?s ?resp = Some (s', Inl OutOfBounds)"
    by blast
  with short prog wr long show ?thesis
    by blast
qed

section \<open>A failed send in \<^verbatim>\<open>send_response\<close>\<close>

text \<open>
  C4. \<^verbatim>\<open>send_response\<close> does not stop at a failed \<^verbatim>\<open>send\<close>: it calls \<^verbatim>\<open>perror\<close> and goes
  on with \<^verbatim>\<open>sent += i\<close> for \<open>i = -1\<close>. When the first send of the header fails, \<open>sent\<close>
  wraps around to the largest \<^verbatim>\<open>size_t\<close>, the header loop ends, and the text is sent with
  no header before it; when a send fails after two bytes of the header, \<open>sent\<close> steps back
  to 1 and the second byte is sent again, so five header bytes go out. Both calls return
  as if nothing had happened.
\<close>

theorem send_response_goes_on_after_failed_send:
  "send_response whole_platform
       (fresh_socket [] (\<lambda>i. RecvOk 4) (\<lambda>i. if i = 0 then SendFail else SendOk 16))
       \<lparr>success = True, balance = 100, data = [], message = ''OK''\<rparr> =
     Some (\<lparr>rx = [], tx = ''1|100||OK'', recv_sched = (\<lambda>i. RecvOk 4),
             send_sched = (\<lambda>i. if i = 0 then SendFail else SendOk 16), rcalls = 0,
             scalls = 2\<rparr>, Inr ()) \<and>
   send_response whole_platform
       (fresh_socket [] (\<lambda>i. RecvOk 4)
          (\<lambda>i. if i = 0 then SendOk 2 else if i = 2 then SendOk 16 else
                if i = 3 then SendOk 16 else SendFail))
       \<lparr>success = True, balance = 100, data = [], message = ''OK''\<rparr> =
     Some (\<lparr>rx = [],
             tx = [CHR 0x00, CHR 0x00, CHR 0x00, CHR 0x00, CHR 0x09] @ ''1|100||OK'',
             recv_sched = (\<lambda>i. RecvOk 4),
             send_sched = (\<lambda>i. if i = 0 then SendOk 2 else if i = 2 then SendOk 16 else
                if i = 3 then SendOk 16 else SendFail),
             rcalls = 0, scalls = 4\<rparr>, Inr ())"
proof -
  let ?resp = "\<lparr>success = True, balance = 100, data = [], message = ''OK''\<rparr> :: int Response"
  have enc: "encode_response whole_platform ?resp = ''1|100||OK''"
    by (simp add: encode_response_def whole_platform_def int_out_def digits.simps char_of_def
        bit_0)
  have len: "length (encode_response whole_platform ?resp) = 9"
    by (simp add: enc)
  have hdr: "htonl_bytes 9 = [CHR 0x00, CHR 0x00, CHR 0x00, CHR 0x09]"
    by (simp add: htonl_bytes_def char_of_def bit_0)
  have wrap: "size_t_minus_one 0 = 18446744073709551615"
    "size_t_minus_one (Suc (Suc 0)) = Suc 0"
    by (simp_all add: size_t_minus_one_def)
  have first: "send_response whole_platform
       (fresh_socket [] (\<lambda>i. RecvOk 4) (\<lambda>i. if i = 0 then SendFail else SendOk 16)) ?resp =
     Some (\<lparr>rx = [], tx = ''1|100||OK'', recv_sched = (\<lambda>i. RecvOk 4),
             send_sched = (\<lambda>i. if i = 0 then SendFail else SendOk 16), rcalls = 0,
             scalls = 2\<rparr>, Inr ())"
    unfolding send_response_def Let_def len
    by (simp add: enc hdr wrap send_loop_resp.simps send_def fresh_socket_def memcpy_buf_def
        BUFSZ_def)
  have second: "send_response whole_platform
       (fresh_socket [] (\<lambda>i. RecvOk 4)
          (\<lambda>i. if i = 0 then SendOk 2 else if i = 2 then SendOk 16 else
                if i = 3 then SendOk 16 else SendFail)) ?resp =
     Some (\<lparr>rx = [],
             tx = [CHR 0x00, CHR 0x00, CHR 0x00, CHR 0x00, CHR 0x09] @ ''1|100||OK'',
             recv_sched = (\<lambda>i. RecvOk 4),
             send_sched = (\<lambda>i. if i = 0 then SendOk 2 else if i = 2 then SendOk 16 else
                if i = 3 then SendOk 16 else SendFail),
             rcalls = 0, scalls = 4\<rparr>, Inr ())"
    unfolding send_response_def Let_def len
    by (simp add: enc hdr wrap send_loop_resp.simps send_def fresh_socket_def memcpy_buf_def
        BUFSZ_def)
  from first second show ?thesis
    by simp
qed

section \<open>Failures of \<^verbatim>\<open>send_request\<close>\<close>

lemma read_response_sound:
  assumes "read_response P success_init balance_init s = Some (s', r)"
  shows "recv_trace s s' \<and>
     (r = Inl RecvFailed \<longleftrightarrow> recv_failed_between s s' \<or> \<not> header_arrives s)"
proof -
  from assms obtain fr where frame: "read_frame s = Some (s', fr)"
    by (cases "read_frame s") (auto simp: read_response_def split: sum.splits)
  note snd = read_frame_sound [OF frame]
  show ?thesis
  proof (cases fr)
    case (Inl e)
    with assms frame have "r = Inl e"
      by (simp add: read_response_def)
    with snd Inl show ?thesis
      by auto
  next
    case (Inr str)
    with assms frame have "r = decode_response P success_init balance_init str"
      by (simp add: read_response_def)
    moreover have "decode_response P success_init balance_init str \<noteq> Inl RecvFailed"
      by (auto simp: decode_response_def Let_def split: option.splits prod.splits sum.splits)
    ultimately show ?thesis
      using snd Inr by auto
  qed
qed

lemma failures_after_write:
  assumes "send_trace s s1" "recv_trace s1 s'"
  shows "send_failed_between s s' \<longleftrightarrow> send_failed_between s s1"
    and "recv_failed_between s s' \<longleftrightarrow> recv_failed_between s1 s'"
    and "header_arrives s1 \<longleftrightarrow> header_arrives s"
    and "rcalls s1 = rcalls s"
  using send_trace_fields [OF assms(1)] recv_trace_fields [OF assms(2)]
  by (auto simp: send_failed_between_def recv_failed_between_def header_arrives_def
      split: recv_event.splits)

text \<open>
  A \<^verbatim>\<open>send\<close> or a \<^verbatim>\<open>recv\<close> that returns -1, and a \<^verbatim>\<open>recv\<close> of the header that does not
  return 4 bytes, make \<^verbatim>\<open>send_request\<close> return a response with \<open>success = False\<close> and the
  message \<open>Send failed\<close> or \<open>Receive failed\<close>, whenever the call returns after one. When
  the peer closes the connection before it sends any byte of a response, the call returns
  such a response, provided no send returns 0 and the encoded request fits the message
  buffer. And the call does return, when no send returns 0, whenever a \<^verbatim>\<open>recv\<close> that
  returns -1 lies ahead in the schedule or the header does not arrive whole.
\<close>

lemma send_request_failure_on_error:
  "(\<forall>s' out. send_request P success_init balance_init s req = Some (s', out) \<and>
        (send_failed_between s s' \<or> recv_failed_between s s' \<or>
         (rcalls s < rcalls s' \<and> \<not> header_arrives s)) \<longrightarrow>
      (\<exists>r. out = Inr r \<and> \<not> success r \<and> message r \<noteq> [] \<and> balance r = 0 \<and> data r = [] \<and>
           (message r = ''Send failed'' \<or> message r = ''Receive failed''))) \<and>
   (rx s = [] \<and> sends_no_stall s \<and> length (encode_request P req) \<le> BUFSZ \<longrightarrow>
      (\<exists>s' r. send_request P success_init balance_init s req = Some (s', Inr r) \<and>
           \<not> success r \<and> message r \<noteq> [] \<and>
           (message r = ''Send failed'' \<or> message r = ''Receive failed''))) \<and>
   (sends_no_stall s \<and> ((\<exists>j\<ge>rcalls s. recv_sched s j = RecvFail) \<or> \<not> header_arrives s) \<longrightarrow>
      (\<exists>y. send_request P success_init balance_init s req = Some y))"
proof (intro conjI allI impI)
  fix s' out
  assume a: "send_request P success_init balance_init s req = Some (s', out) \<and>
        (send_failed_between s s' \<or> recv_failed_between s s' \<or>
         (rcalls s < rcalls s' \<and> \<not> header_arrives s))"
  then obtain s1 r1 where wr: "write_request P s req = Some (s1, r1)"
    by (cases "write_request P s req") (auto simp: send_request_def)
  note w = write_request_sound [OF wr]
  show "\<exists>r. out = Inr r \<and> \<not> success r \<and> message r \<noteq> [] \<and> balance r = 0 \<and> data r = [] \<and>
           (message r = ''Send failed'' \<or> message r = ''Receive failed'')"
  proof (cases r1)
    case (Inl e)
    show ?thesis
    proof (cases "e = SendFailed")
      case True
      with a wr Inl show ?thesis
        by (auto simp: send_request_def)
    next
      case False
      with w Inl have e: "e = OutOfBounds" and nofail: "\<not> send_failed_between s s1"
        by auto
      with a wr Inl have s': "s' = s1"
        by (simp add: send_request_def)
      from w have "rcalls s1 = rcalls s" "recv_sched s1 = recv_sched s"
        using send_trace_fields by blast+
      with a nofail s' show ?thesis
        by (auto simp: recv_failed_between_def)
    qed
  next
    case (Inr u)
    with a wr obtain r2 where rd: "read_response P success_init balance_init s1 = Some (s', r2)"
      by (cases "read_response P success_init balance_init s1")
         (auto simp: send_request_def split: sum.splits failure.splits)
    note r = read_response_sound [OF rd]
    from w r have tr: "send_trace s s1" "recv_trace s1 s'"
      by simp_all
    note f = failures_after_write [OF tr]
    from w Inr have "\<not> send_failed_between s s1"
      by simp
    with a f have "recv_failed_between s1 s' \<or> \<not> header_arrives s1"
      by auto
    with r have "r2 = Inl RecvFailed"
      by simp
    with a wr Inr rd show ?thesis
      by (auto simp: send_request_def)
  qed
next
  assume a: "rx s = [] \<and> sends_no_stall s \<and> length (encode_request P req) \<le> BUFSZ"
  then obtain s1 r1 where wr: "write_request P s req = Some (s1, r1)"
    using write_request_total [of s P req] by auto
  note w = write_request_sound [OF wr]
  show "\<exists>s' r. send_request P success_init balance_init s req = Some (s', Inr r) \<and>
           \<not> success r \<and> message r \<noteq> [] \<and>
           (message r = ''Send failed'' \<or> message r = ''Receive failed'')"
  proof (cases r1)
    case (Inl e)
    with w a have "e = SendFailed"
      by auto
    with wr Inl show ?thesis
      by (auto simp: send_request_def)
  next
    case (Inr u)
    from w have "rx s1 = rx s"
      using send_trace_fields by blast
    with a have "\<not> header_arrives s1"
      by (cases "recv_sched s1 (rcalls s1)") (simp_all add: header_arrives_def)
    from read_frame_refused [OF this]
    have "read_response P success_init balance_init s1 = Some (fst (recv s1 4), Inl RecvFailed)"
      by (simp add: read_response_def)
    with wr Inr show ?thesis
      by (auto simp: send_request_def)
  qed
next
  assume a: "sends_no_stall s \<and>
    ((\<exists>j\<ge>rcalls s. recv_sched s j = RecvFail) \<or> \<not> header_arrives s)"
  then obtain s1 r1 where wr: "write_request P s req = Some (s1, r1)"
    using write_request_total [of s P req] by auto
  from write_request_sound [OF wr] have tr: "send_trace s s1"
    by simp
  note f = send_trace_fields [OF tr]
  have "\<exists>y. read_frame s1 = Some y"
  proof (cases "header_arrives s1")
    case False
    then show ?thesis
      by (simp add: read_frame_refused)
  next
    case True
    with f have "header_arrives s"
      by (simp add: header_arrives_def split: recv_event.splits)
    with a obtain j where "rcalls s \<le> j" "recv_sched s j = RecvFail"
      by blast
    with f have "recv_sched s1 j = RecvFail" "rcalls s1 \<le> j"
      by simp_all
    then show ?thesis
      by (rule read_frame_total_on_fail)
  qed
  then obtain s2 fr where "read_frame s1 = Some (s2, fr)"
    by auto
  then obtain y where rd: "read_response P success_init balance_init s1 = Some y"
    by (cases fr) (simp_all add: read_response_def)
  show "\<exists>y. send_request P success_init balance_init s req = Some y"
  proof (cases r1)
    case (Inl e)
    with wr show ?thesis
      by (cases e) (simp_all add: send_request_def)
  next
    case (Inr u)
    obtain s3 r3 where "y = (s3, r3)"
      by (cases y)
    with wr Inr rd show ?thesis
      by (cases r3) (auto simp: send_request_def split: failure.splits)
  qed
qed

section \<open>Decoding a response\<close>








section \<open>Opening a client channel\<close>

text \<open>
  C9. On the client side the host \<open>localhost\<close> is replaced by \<open>127.0.0.1\<close> before it is
  parsed: the constructor does with \<open>localhost\<close> what it does with \<open>127.0.0.1\<close>, up to the
  peer name it stores. A channel is constructed only when \<^verbatim>\<open>inet_pton\<close> accepts the host
  (or \<open>127.0.0.1\<close> for \<open>localhost\<close>) as an IPv4 address and \<^verbatim>\<open>connect\<close> to that address and
  port succeeds; when the socket cannot be created, the address does not parse or the
  connect fails, the constructor throws and there is no channel.
\<close>

theorem client_channel_setup:
  "NetworkRequestChannel env ''localhost'' port CLIENT_SIDE =
     map_sum id (\<lambda>ch. ch\<lparr>peer_ip := ''localhost''\<rparr>)
       (NetworkRequestChannel env ''127.0.0.1'' port CLIENT_SIDE) \<and>
   (\<forall>ch. NetworkRequestChannel env ip port CLIENT_SIDE = Inr ch \<longrightarrow>
      socket_ret env \<noteq> - 1 \<and>
      inet_pton env (if ip = ''localhost'' then ''127.0.0.1'' else ip) = Some (sin_addr ch) \<and>
      connect_ret env (sin_addr ch) (htons port) \<noteq> - 1 \<and>
      ch = \<lparr>my_side = CLIENT_SIDE, sockfd = socket_ret env, sin_addr = sin_addr ch,
             sin_port = htons port, peer_ip = ip, peer_port = port\<rparr>) \<and>
   (socket_ret env = - 1 \<or>
    inet_pton env (if ip = ''localhost'' then ''127.0.0.1'' else ip) = None \<or>
    (\<exists>addr. inet_pton env (if ip = ''localhost'' then ''127.0.0.1'' else ip) = Some addr \<and>
       connect_ret env addr (htons port) = - 1) \<longrightarrow>
      (\<exists>msg. NetworkRequestChannel env ip port CLIENT_SIDE = Inl (ConnectionSetupError msg)))"
proof -
  have one: "NetworkRequestChannel env ''localhost'' port CLIENT_SIDE =
     map_sum id (\<lambda>ch. ch\<lparr>peer_ip := ''localhost''\<rparr>)
       (NetworkRequestChannel env ''127.0.0.1'' port CLIENT_SIDE)"
    by (simp add: NetworkRequestChannel_def split: option.splits)
  have two: "socket_ret env \<noteq> - 1 \<and>
      inet_pton env (if ip = ''localhost'' then ''127.0.0.1'' else ip) = Some (sin_addr ch) \<and>
      connect_ret env (sin_addr ch) (htons port) \<noteq> - 1 \<and>
      ch = \<lparr>my_side = CLIENT_SIDE, sockfd = socket_ret env, sin_addr = sin_addr ch,
             sin_port = htons port, peer_ip = ip, peer_port = port\<rparr>"
    if "NetworkRequestChannel env ip port CLIENT_SIDE = Inr ch" for ch
    using that by (auto simp: NetworkRequestChannel_def split: option.splits if_splits)
  have three: "\<exists>msg. NetworkRequestChannel env ip port CLIENT_SIDE = Inl (ConnectionSetupError msg)"
    if "socket_ret env = - 1 \<or>
      inet_pton env (if ip = ''localhost'' then ''127.0.0.1'' else ip) = None \<or>
      (\<exists>addr. inet_pton env (if ip = ''localhost'' then ''127.0.0.1'' else ip) = Some addr \<and>
         connect_ret env addr (htons port) = - 1)"
    using that by (auto simp: NetworkRequestChannel_def split: option.splits if_splits)
  from one two three show ?thesis
    by blast
qed

theorem client_channel_setup_witness:
  "NetworkRequestChannel
      \<lparr>socket_ret = 3, setsockopt_ret = 0,
        inet_pton = (\<lambda>str. if str = ''127.0.0.1'' then Some 2130706433 else None),
        bind_ret = (\<lambda>a p. 0), listen_ret = 0,
        connect_ret = (\<lambda>a p. if p = 9000 then 0 else - 1)\<rparr>
      ''localhost'' 9000 CLIENT_SIDE =
     Inr \<lparr>my_side = CLIENT_SIDE, sockfd = 3, sin_addr = 2130706433, sin_port = 9000,
          peer_ip = ''localhost'', peer_port = 9000\<rparr> \<and>
   inet_pton
      \<lparr>socket_ret = 3, setsockopt_ret = 0,
        inet_pton = (\<lambda>str. if str = ''127.0.0.1'' then Some 2130706433 else None),
        bind_ret = (\<lambda>a p. 0), listen_ret = 0,
        connect_ret = (\<lambda>a p. if p = 9000 then 0 else - 1)\<rparr> ''example.org'' = None \<and>
   (\<exists>msg. NetworkRequestChannel
      \<lparr>socket_ret = 3, setsockopt_ret = 0,
        inet_pton = (\<lambda>str. if str = ''127.0.0.1'' then Some 2130706433 else None),
        bind_ret = (\<lambda>a p. 0), listen_ret = 0,
        connect_ret = (\<lambda>a p. if p = 9000 then 0 else - 1)\<rparr>
      ''example.org'' 9000 CLIENT_SIDE = Inl (ConnectionSetupError msg)) \<and>
   (\<exists>msg. NetworkRequestChannel
      \<lparr>socket_ret = 3, setsockopt_ret = 0,
        inet_pton = (\<lambda>str. if str = ''127.0.0.1'' then Some 2130706433 else None),
        bind_ret = (\<lambda>a p. 0), listen_ret = 0,
        connect_ret = (\<lambda>a p. if p = 9000 then 0 else - 1)\<rparr>
      ''127.0.0.1'' 9001 CLIENT_SIDE = Inl (ConnectionSetupError msg))"
proof -
  let ?env = "\<lparr>socket_ret = 3, setsockopt_ret = 0,
        inet_pton = (\<lambda>str. if str = ''127.0.0.1'' then Some 2130706433 else None),
        bind_ret = (\<lambda>a p. 0), listen_ret = 0,
        connect_ret = (\<lambda>a p. if p = 9000 then 0 else - 1)\<rparr>"
  have plain: "NetworkRequestChannel ?env ''127.0.0.1'' 9000 CLIENT_SIDE =
     Inr \<lparr>my_side = CLIENT_SIDE, sockfd = 3, sin_addr = 2130706433, sin_port = 9000,
          peer_ip = ''127.0.0.1'', peer_port = 9000\<rparr>"
    by (simp add: NetworkRequestChannel_def htons_def)
  from client_channel_setup [of ?env 9000 "''localhost''"] plain
  have via_alias: "NetworkRequestChannel ?env ''localhost'' 9000 CLIENT_SIDE =
     Inr \<lparr>my_side = CLIENT_SIDE, sockfd = 3, sin_addr = 2130706433, sin_port = 9000,
          peer_ip = ''localhost'', peer_port = 9000\<rparr>"
    by simp
  have noparse: "inet_pton ?env ''example.org'' = None"
    by simp
  from client_channel_setup [of ?env 9000 "''example.org''"] noparse
  have bad_host: "\<exists>msg. NetworkRequestChannel ?env ''example.org'' 9000 CLIENT_SIDE =
      Inl (ConnectionSetupError msg)"
    by simp
  have "inet_pton ?env ''127.0.0.1'' = Some 2130706433 \<and>
      connect_ret ?env 2130706433 (htons 9001) = - 1"
    by (simp add: htons_def)
  with client_channel_setup [of ?env 9001 "''127.0.0.1''"]
  have bad_port: "\<exists>msg. NetworkRequestChannel ?env ''127.0.0.1'' 9001 CLIENT_SIDE =
      Inl (ConnectionSetupError msg)"
    by simp
  from via_alias noparse bad_host bad_port show ?thesis
    by blast
qed

section \<open>Decimal integers\<close>











section \<open>Records encoded and decoded\<close>






section \<open>A connection closed inside the payload\<close>

text \<open>
  In the receive loop only the return value -1 ends the call. When the peer sends fewer
  bytes than the header declared and closes the connection, \<^verbatim>\<open>recv\<close> returns 0 once the
  bytes are used up, \<open>received\<close> stays where it is, and the loop never leaves: the frame
  read does not return.
\<close>

lemma recv_loop_short_aux:
  assumes "recv_loop s len buf = Some y"
  shows "\<not> ((\<forall>i\<ge>rcalls s. recv_sched s i \<noteq> RecvFail) \<and> length buf + length (rx s) < len \<and>
            len \<le> BUFSZ)"
proof (rule recv_loop.raw_induct
    [OF _ assms, where P = "\<lambda>s len buf y.
       \<not> ((\<forall>i\<ge>rcalls s. recv_sched s i \<noteq> RecvFail) \<and> length buf + length (rx s) < len \<and>
          len \<le> BUFSZ)"])
  fix f s len buf y
  assume ih: "\<And>s len buf y. f s len buf = Some y \<Longrightarrow>
       \<not> ((\<forall>i\<ge>rcalls s. recv_sched s i \<noteq> RecvFail) \<and> length buf + length (rx s) < len \<and>
          len \<le> BUFSZ)"
    and body: "(if length buf < len then
        (case recv s (len - length buf) of
           (s', None) \<Rightarrow> Some (s', Inl RecvFailed)
         | (s', Some bs) \<Rightarrow>
             if BUFSZ < length buf + length bs then Some (s', Inl OutOfBounds)
             else f s' len (buf @ bs))
      else Some (s, Inr buf)) = Some y"
  show "\<not> ((\<forall>i\<ge>rcalls s. recv_sched s i \<noteq> RecvFail) \<and> length buf + length (rx s) < len \<and>
          len \<le> BUFSZ)"
  proof
    assume inv: "(\<forall>i\<ge>rcalls s. recv_sched s i \<noteq> RecvFail) \<and>
      length buf + length (rx s) < len \<and> len \<le> BUFSZ"
    then obtain k where k: "recv_sched s (rcalls s) = RecvOk k"
      by (cases "recv_sched s (rcalls s)") auto
    let ?m = "min k (len - length buf)"
    let ?s1 = "s\<lparr>rx := drop ?m (rx s), rcalls := Suc (rcalls s)\<rparr>"
    let ?bs = "take ?m (rx s)"
    have "length ?bs \<le> length (rx s)"
      by simp
    with inv have fits: "\<not> BUFSZ < length buf + length ?bs"
      by linarith
    from inv have "length buf < len"
      by simp
    with k body fits have "f ?s1 len (buf @ ?bs) = Some y"
      by (simp add: recv_def)
    from ih [OF this] inv show False
      by (simp add: min_def split: if_splits)
  qed
qed

lemma recv_loop_short:
  assumes "\<forall>i\<ge>rcalls s. recv_sched s i \<noteq> RecvFail" "length buf + length (rx s) < len"
    "len \<le> BUFSZ"
  shows "recv_loop s len buf = None"
proof (cases "recv_loop s len buf")
  case None
  then show ?thesis .
next
  case (Some y)
  from recv_loop_short_aux [OF Some] assms show ?thesis
    by simp
qed

lemma read_frame_short_payload:
  assumes "header_arrives s" "\<forall>i\<ge>rcalls s. recv_sched s i \<noteq> RecvFail"
    "length (rx s) - 4 < ntohl_bytes (take 4 (rx s))" "ntohl_bytes (take 4 (rx s)) \<le> BUFSZ"
  shows "read_frame s = None"
proof -
  let ?s1 = "s\<lparr>rx := drop 4 (rx s), rcalls := Suc (rcalls s)\<rparr>"
  have "recv_loop ?s1 (ntohl_bytes (take 4 (rx s))) [] = None"
    using assms by (intro recv_loop_short) simp_all
  then show ?thesis
    by (simp add: read_frame_arrived [OF assms(1)])
qed

text \<open>
  C6. \<^verbatim>\<open>receive_request\<close> does not return \<^verbatim>\<open>Request(QUIT)\<close> for every failed receive of the
  payload. Here the header declares 5 bytes, the peer sends the two bytes \<open>ab\<close> and closes
  the connection: every further \<^verbatim>\<open>recv\<close> returns 0, which the loop does not take for a
  failure (it tests \<open>i == -1\<close> only), and the call never returns. The header read, three
  lines above, does take the return value 0 for a failure: when the peer closes before
  the header, the call returns the sentinel.
\<close>

theorem receive_request_hangs_on_close:
  "receive_request (\<lambda>str. Inr (Request_of BALANCE) :: failure + int Request)
      (fresh_socket (htonl_bytes 5 @ ''ab'') (\<lambda>i. RecvOk 4) (\<lambda>i. SendOk 3)) = None \<and>
   receive_request (\<lambda>str. Inr (Request_of BALANCE))
      (fresh_socket [] (\<lambda>i. RecvOk 4) (\<lambda>i. SendOk 3)) =
     Some (\<lparr>rx = [], tx = [], recv_sched = (\<lambda>i. RecvOk 4), send_sched = (\<lambda>i. SendOk 3),
             rcalls = 1, scalls = 0\<rparr>, Inr (Request_of QUIT :: int Request))"
proof -
  let ?s = "fresh_socket (htonl_bytes 5 @ ''ab'') (\<lambda>i. RecvOk 4) (\<lambda>i. SendOk 3)"
  have "header_arrives ?s"
    by (simp add: header_arrives_def fresh_socket_def htonl_bytes_def)
  moreover have "\<forall>i\<ge>rcalls ?s. recv_sched ?s i \<noteq> RecvFail"
    by (simp add: fresh_socket_def)
  moreover have "length (rx ?s) - 4 < ntohl_bytes (take 4 (rx ?s))"
    "ntohl_bytes (take 4 (rx ?s)) \<le> BUFSZ"
    by (simp_all add: fresh_socket_def htonl_bytes_def BUFSZ_def)
  ultimately have "read_frame ?s = None"
    by (rule read_frame_short_payload)
  then have "receive_request (\<lambda>str. Inr (Request_of BALANCE) :: failure + int Request) ?s = None"
    by (simp add: receive_request_def)
  moreover have "receive_request (\<lambda>str. Inr (Request_of BALANCE))
      (fresh_socket [] (\<lambda>i. RecvOk 4) (\<lambda>i. SendOk 3)) =
     Some (\<lparr>rx = [], tx = [], recv_sched = (\<lambda>i. RecvOk 4), send_sched = (\<lambda>i. SendOk 3),
             rcalls = 1, scalls = 0\<rparr>, Inr (Request_of QUIT :: int Request))"
    by (simp add: receive_request_def read_frame_def recv_def fresh_socket_def)
  ultimately show ?thesis
    by simp
qed

text \<open>
  C5. \<^verbatim>\<open>send_request\<close> does not return a failure response for every failed receive. Here
  the request goes out, the header of the response declares 5 bytes, the peer sends the
  two bytes \<open>ab\<close> and closes the connection: every further \<^verbatim>\<open>recv\<close> returns 0, the receive
  loop of lines 262-269 tests \<open>i == -1\<close> only, and the call never returns. When the peer
  closes before the header of the response, the same call returns
  \<^verbatim>\<open>Response(false, 0, "", "Receive failed")\<close>.
\<close>

theorem send_request_hangs_on_close:
  "send_request whole_platform False 0
      (fresh_socket (htonl_bytes 5 @ ''ab'') (\<lambda>i. RecvOk 4) (\<lambda>i. SendOk 16))
      \<lparr>req_type = BALANCE, user_id = 42, amount = 0, filename = [], req_data = []\<rparr> = None \<and>
   send_request whole_platform False 0
      (fresh_socket [] (\<lambda>i. RecvOk 4) (\<lambda>i. SendOk 16))
      \<lparr>req_type = BALANCE, user_id = 42, amount = 0, filename = [], req_data = []\<rparr> =
     Some (\<lparr>rx = [], tx = htonl_bytes 8 @ ''2|42|0||'', recv_sched = (\<lambda>i. RecvOk 4),
             send_sched = (\<lambda>i. SendOk 16), rcalls = 1, scalls = 2\<rparr>,
           Inr \<lparr>success = False, balance = 0, data = [], message = ''Receive failed''\<rparr>)"
proof -
  let ?req = "\<lparr>req_type = BALANCE, user_id = 42, amount = 0, filename = [], req_data = []\<rparr>
    :: int Request"
  have enc: "encode_request whole_platform ?req = ''2|42|0||''"
    by (simp add: encode_request_def whole_platform_def int_out_def digits.simps char_of_def
        bit_0)
  have len: "length (encode_request whole_platform ?req) = 8"
    by (simp add: enc)
  have hdr: "htonl_bytes 8 = [CHR 0x00, CHR 0x00, CHR 0x00, CHR 0x08]"
    by (simp add: htonl_bytes_def char_of_def bit_0)
  have wr: "write_request whole_platform (fresh_socket bytes (\<lambda>i. RecvOk 4) (\<lambda>i. SendOk 16)) ?req =
      Some (\<lparr>rx = bytes, tx = htonl_bytes 8 @ ''2|42|0||'', recv_sched = (\<lambda>i. RecvOk 4),
              send_sched = (\<lambda>i. SendOk 16), rcalls = 0, scalls = 2\<rparr>, Inr ())" for bytes
    unfolding write_request_def Let_def len
    by (simp add: enc hdr send_loop.simps send_def fresh_socket_def memcpy_buf_def BUFSZ_def)
  let ?s1 = "\<lparr>rx = htonl_bytes 5 @ ''ab'', tx = htonl_bytes 8 @ ''2|42|0||'',
      recv_sched = (\<lambda>i. RecvOk 4), send_sched = (\<lambda>i. SendOk 16), rcalls = 0, scalls = 2\<rparr>"
  have "header_arrives ?s1"
    by (simp add: header_arrives_def htonl_bytes_def)
  moreover have "\<forall>i\<ge>rcalls ?s1. recv_sched ?s1 i \<noteq> RecvFail"
    by simp
  moreover have "length (rx ?s1) - 4 < ntohl_bytes (take 4 (rx ?s1))"
    "ntohl_bytes (take 4 (rx ?s1)) \<le> BUFSZ"
    by (simp_all add: htonl_bytes_def BUFSZ_def)
  ultimately have "read_frame ?s1 = None"
    by (rule read_frame_short_payload)
  then have hang: "send_request whole_platform False 0
      (fresh_socket (htonl_bytes 5 @ ''ab'') (\<lambda>i. RecvOk 4) (\<lambda>i. SendOk 16)) ?req = None"
    by (simp add: send_request_def wr read_response_def)
  have "read_frame \<lparr>rx = [], tx = htonl_bytes 8 @ ''2|42|0||'',
      recv_sched = (\<lambda>i. RecvOk 4), send_sched = (\<lambda>i. SendOk 16), rcalls = 0, scalls = 2\<rparr> =
    Some (\<lparr>rx = [], tx = htonl_bytes 8 @ ''2|42|0||'', recv_sched = (\<lambda>i. RecvOk 4),
            send_sched = (\<lambda>i. SendOk 16), rcalls = 1, scalls = 2\<rparr>, Inl RecvFailed)"
    by (simp add: read_frame_def recv_def)
  then have "send_request whole_platform False 0
      (fresh_socket [] (\<lambda>i. RecvOk 4) (\<lambda>i. SendOk 16)) ?req =
     Some (\<lparr>rx = [], tx = htonl_bytes 8 @ ''2|42|0||'', recv_sched = (\<lambda>i. RecvOk 4),
             send_sched = (\<lambda>i. SendOk 16), rcalls = 1, scalls = 2\<rparr>,
           Inr \<lparr>success = False, balance = 0, data = [], message = ''Receive failed''\<rparr>)"
    by (simp add: send_request_def wr read_response_def)
  with hang show ?thesis
    by simp
qed

end
